theory Spec2Isabelle
  imports Complex_Main "HOL-Library.AList"
begin

section \<open>Striped work splitting: \<open>chunk\<close> and \<open>interleave\<close> (examples/eval.py, lines 91--104)\<close>

text \<open>
  \<^verbatim>\<open>
  def chunk(l, n):
      for i in range(0, n):
          yield l[i::n]
  \<close>
  The extended slice \<open>l[i::n]\<close> with \<open>0 \<le> i\<close> and \<open>0 < n\<close> holds the elements at the
  positions \<open>i, i + n, i + 2 n, ...\<close> below \<open>len(l)\<close>. Python computes the number of
  selected positions as \<open>(stop - start - 1) // step + 1\<close> when \<open>start < stop\<close> and as
  \<open>0\<close> otherwise, where \<open>start\<close> is \<open>i\<close> clipped to \<open>len(l)\<close> and \<open>stop\<close> is \<open>len(l)\<close>.
  A step of \<open>0\<close> is a \<open>ValueError\<close> in Python; \<open>chunk\<close> never takes such a slice, since
  \<open>range(0, 0)\<close> is empty. The model of the slice returns \<open>[]\<close> there.
\<close>

definition slice_len :: "nat \<Rightarrow> nat \<Rightarrow> nat \<Rightarrow> nat" where
  "slice_len len i n = (if i < len then (len - i - 1) div n + 1 else 0)"

definition slice_step :: "'a list \<Rightarrow> nat \<Rightarrow> nat \<Rightarrow> 'a list" where
  "slice_step l i n =
     (if n = 0 then [] else map (\<lambda>k. l ! (i + k * n)) [0..<slice_len (length l) i n])"

text \<open>
  The generator \<open>chunk(l, n)\<close>, as the list of what it yields (\<open>predict\<close> applies \<open>list\<close>
  to it). The number \<open>n\<close> is the world size, a natural number here; for \<open>n \<le> 0\<close> the
  range is empty and nothing is yielded.
\<close>

definition chunk :: "'a list \<Rightarrow> nat \<Rightarrow> 'a list list" where
  "chunk l n = map (\<lambda>i. slice_step l i n) [0..<n]"

text \<open>
  \<^verbatim>\<open>
  def interleave(chunks):
      interleaved = list()
      for idx in count():
          try:
              interleaved.extend(chunk[idx] for chunk in chunks)
          except IndexError:
              break
      return interleaved
  \<close>
  \<open>list.extend\<close> with a generator argument appends the items one by one as the
  generator produces them. When \<open>chunk[idx]\<close> raises \<open>IndexError\<close> in the middle of a
  round, the items appended earlier in that round stay in the list. \<open>extend_round\<close>
  is one such call: it returns the list after the call and whether \<open>IndexError\<close> was
  raised. The index \<open>idx\<close> comes from \<open>count()\<close> and is never negative, so Python's
  wrap-around of negative indices plays no role.
\<close>

fun extend_round :: "nat \<Rightarrow> 'a list list \<Rightarrow> 'a list \<Rightarrow> 'a list \<times> bool" where
  "extend_round idx [] interleaved = (interleaved, False)"
| "extend_round idx (c # chunks) interleaved =
     (if idx < length c then extend_round idx chunks (interleaved @ [c ! idx])
      else (interleaved, True))"

text \<open>
  The loop over \<open>count()\<close> has no bound of its own: it ends only through the
  \<open>IndexError\<close>. With an empty list of chunks no access is ever made and the loop
  runs forever; the model's value is then \<open>None\<close>.
\<close>

partial_function (option) interleave_loop ::
  "'a list list \<Rightarrow> nat \<Rightarrow> 'a list \<Rightarrow> 'a list option" where
  "interleave_loop chunks idx interleaved =
     (case extend_round idx chunks interleaved of
        (interleaved', raised) \<Rightarrow>
          if raised then Some interleaved'
          else interleave_loop chunks (Suc idx) interleaved')"

declare interleave_loop.simps [code]

definition interleave :: "'a list list \<Rightarrow> 'a list option" where
  "interleave chunks = interleave_loop chunks 0 []"

section \<open>The per-item generation loop \<open>generate\<close> (examples/eval.py, lines 106--115)\<close>

text \<open>
  \<^verbatim>\<open>
  def generate(pipe, image, caption, strict=False, timeout=None, **tqdm_kwargs):
      start, success, tikzpics = time(), False, set()
      for score, tikzpic in tqdm(pipe.simulate(image=image, caption=caption), ...):
          tikzpics.add((score, tikzpic))
          if not tikzpic.compiled_with_errors if strict else tikzpic.is_rasterizable:
              success = True
          if success and (not timeout or time() - start >= timeout):
              break
      return [tikzpic for _, tikzpic in sorted(tikzpics, key=itemgetter(0))]
  \<close>
  What the function takes from outside is a parameter of the model:
  \<^item> the artifacts are values of a type \<open>'a\<close>, and the attributes \<open>is_rasterizable\<close>
    and \<open>compiled_with_errors\<close> of the class \<open>TikzDocument\<close> (not among the sources)
    are predicates on \<open>'a\<close>; equality of \<open>'a\<close> is Python's \<open>==\<close> on artifacts;
  \<^item> the scores are values of a linearly ordered type \<open>'s\<close>;
  \<^item> the lazy sequence \<open>pipe.simulate(...)\<close> is a function \<open>simulate\<close>: the call of
    \<open>next\<close> number \<open>k\<close> (from \<open>0\<close>) yields \<open>simulate k\<close>, and \<open>None\<close> is exhaustion
    (\<open>tqdm\<close> hands the items through unchanged);
  \<^item> the clock: \<open>start\<close> is what \<open>time()\<close> returns before the loop, and \<open>now k\<close> is
    the wall-clock time at which the \<open>break\<close> condition is evaluated for the item
    number \<open>k\<close> (the source reads it there only when \<open>success\<close> holds and \<open>timeout\<close>
    is truthy); times are real numbers;
  \<^item> \<open>set_order\<close> is the order in which Python iterates a set (it depends on the
    hashes of the members).
\<close>

text \<open>
  The state of the loop: the variables \<open>success\<close> and \<open>tikzpics\<close>, and the position
  of the iterator, that is the number of items taken from the sequence so far.
\<close>

record ('s, 'a) gen_state =
  success :: bool
  tikzpics :: "('s \<times> 'a) set"
  consumed :: nat

text \<open>
  The condition \<open>not timeout or time() - start >= timeout\<close> at time \<open>t\<close>. \<open>not timeout\<close>
  holds for \<open>None\<close> and for \<open>0\<close>.
\<close>

definition budget_spent :: "int option \<Rightarrow> real \<Rightarrow> real \<Rightarrow> bool" where
  "budget_spent timeout start t =
     (case timeout of None \<Rightarrow> True | Some s \<Rightarrow> s = 0 \<or> of_int s \<le> t - start)"

text \<open>
  One pass through the loop body with the item \<open>(score, tikzpic)\<close>: the new state, and
  whether the loop breaks. The conditional expression binds weaker than \<open>not\<close>: the test
  is \<open>(not tikzpic.compiled_with_errors) if strict else tikzpic.is_rasterizable\<close>.
\<close>

definition generate_step ::
  "('a \<Rightarrow> bool) \<Rightarrow> ('a \<Rightarrow> bool) \<Rightarrow> bool \<Rightarrow> int option \<Rightarrow> real \<Rightarrow> real \<Rightarrow>
   ('s, 'a) gen_state \<Rightarrow> 's \<times> 'a \<Rightarrow> ('s, 'a) gen_state \<times> bool" where
  "generate_step is_rasterizable compiled_with_errors strict timeout start t st item =
     (case item of (score, tikzpic) \<Rightarrow>
        let st1 = st\<lparr>tikzpics := insert (score, tikzpic) (tikzpics st),
                     consumed := Suc (consumed st)\<rparr>;
            st2 = (if (if strict then \<not> compiled_with_errors tikzpic
                       else is_rasterizable tikzpic)
                   then st1\<lparr>success := True\<rparr> else st1)
        in (st2, success st2 \<and> budget_spent timeout start t))"

text \<open>
  The \<open>for\<close> loop. The sequence may be unbounded and the loop may run forever (no
  success, or a clock that never reaches the timeout): the value is then \<open>None\<close>.
\<close>

partial_function (option) generate_loop ::
  "('a \<Rightarrow> bool) \<Rightarrow> ('a \<Rightarrow> bool) \<Rightarrow> bool \<Rightarrow> int option \<Rightarrow> (nat \<Rightarrow> ('s \<times> 'a) option) \<Rightarrow>
   real \<Rightarrow> (nat \<Rightarrow> real) \<Rightarrow> ('s, 'a) gen_state \<Rightarrow> ('s, 'a) gen_state option" where
  "generate_loop is_rasterizable compiled_with_errors strict timeout simulate start now st =
     (case simulate (consumed st) of
        None \<Rightarrow> Some st
      | Some item \<Rightarrow>
          (case generate_step is_rasterizable compiled_with_errors strict timeout start
                  (now (consumed st)) st item of
             (st', stop) \<Rightarrow>
               if stop then Some st'
               else generate_loop is_rasterizable compiled_with_errors strict timeout
                      simulate start now st'))"

declare generate_loop.simps [code]

definition generate_init :: "('s, 'a) gen_state" where
  "generate_init = \<lparr>success = False, tikzpics = {}, consumed = 0\<rparr>"

text \<open>
  \<open>sorted(tikzpics, key=itemgetter(0))\<close> is a stable sort of the set's iteration order
  by the score alone; the comprehension then drops the scores.
\<close>

definition generate ::
  "(('s::linorder \<times> 'a) set \<Rightarrow> ('s \<times> 'a) list) \<Rightarrow> ('a \<Rightarrow> bool) \<Rightarrow> ('a \<Rightarrow> bool) \<Rightarrow> bool \<Rightarrow>
   int option \<Rightarrow> (nat \<Rightarrow> ('s \<times> 'a) option) \<Rightarrow> real \<Rightarrow> (nat \<Rightarrow> real) \<Rightarrow> 'a list option" where
  "generate set_order is_rasterizable compiled_with_errors strict timeout simulate start now =
     map_option (\<lambda>st. map snd (sort_key fst (set_order (tikzpics st))))
       (generate_loop is_rasterizable compiled_with_errors strict timeout simulate start now
          generate_init)"

text \<open>
  The specification's words, for comparison with the loop: success has been achieved
  after the item number \<open>k\<close> when one of the items \<open>0, ..., k\<close> meets the success
  criterion (rasterizable, or compiled without errors under \<open>strict\<close>); the loop is to
  stop when success has been achieved and no timeout was specified or the elapsed
  time has reached the timeout.
\<close>

definition spec_criterion :: "('a \<Rightarrow> bool) \<Rightarrow> ('a \<Rightarrow> bool) \<Rightarrow> bool \<Rightarrow> 'a \<Rightarrow> bool" where
  "spec_criterion is_rasterizable compiled_with_errors strict tikzpic =
     (if strict then \<not> compiled_with_errors tikzpic else is_rasterizable tikzpic)"

definition spec_success :: "('a \<Rightarrow> bool) \<Rightarrow> (nat \<Rightarrow> ('s \<times> 'a) option) \<Rightarrow> nat \<Rightarrow> bool" where
  "spec_success ok simulate k =
     (\<exists>j \<in> {..k}. case simulate j of None \<Rightarrow> False | Some (score, tikzpic) \<Rightarrow> ok tikzpic)"

definition spec_stop :: "int option \<Rightarrow> bool \<Rightarrow> real \<Rightarrow> bool" where
  "spec_stop timeout achieved elapsed =
     (achieved \<and> (case timeout of None \<Rightarrow> True | Some s \<Rightarrow> of_int s \<le> elapsed))"

text \<open>
  Two notions for stating what a run of the loop did: the items the sequence yields at
  the positions \<open>c \<le> k < m\<close>, and whether the item at position \<open>k\<close> exists and meets a
  criterion.
\<close>

definition seen :: "(nat \<Rightarrow> 'x option) \<Rightarrow> nat \<Rightarrow> nat \<Rightarrow> 'x set" where
  "seen sim c m = set (List.map_filter sim [c..<m])"

definition ok_at :: "('a \<Rightarrow> bool) \<Rightarrow> (nat \<Rightarrow> ('s \<times> 'a) option) \<Rightarrow> nat \<Rightarrow> bool" where
  "ok_at ok sim k = (case sim k of None \<Rightarrow> False | Some (score, tikzpic) \<Rightarrow> ok tikzpic)"

section \<open>The worker prediction runner \<open>predict\<close> (examples/eval.py, lines 117--155)\<close>

text \<open>
  Exceptions are values. \<open>External e\<close> is an exception \<open>e\<close> raised by code outside
  this file (model loading, the generation engine, a metric).
\<close>

datatype 'e py_error = IndexError | AssertionError | ZeroDivisionError | External 'e

text \<open>
  Modelled from the spec: the class \<open>TikzDocument\<close> of \<open>detikzify.infer\<close> is not among
  the sources. The specification describes it as wrapping the generated source code,
  constructed from the raw code text plus an optional compilation timeout. Whether a
  document is rasterizable is decided by compiling it, outside this file; it is a
  predicate taken as a parameter wherever it is needed.
\<close>

record tikz_document =
  code :: string
  doc_timeout :: "int option"

text \<open>
  The part of the outside world that \<open>predict\<close> reads and changes: the cache files,
  as their parsed JSON contents (an array of arrays of code strings), and the lists
  this worker has handed to \<open>dist.all_gather_object\<close>, in order.
\<close>

record world =
  files :: "string \<rightharpoonup> string list list"
  sent :: "tikz_document list list list"

text \<open>
  \<^verbatim>\<open>
  if cache_file and isfile(cache_file):
      with open(cache_file) as f:
          predictions = [[TikzDocument(code, timeout=None) for code in sample]
                         for sample in load_json(f)]
  \<close>
  \<open>cache_file\<close> is \<open>None\<close> or a string; the empty string is falsy as well.
\<close>

definition truthy :: "string option \<Rightarrow> bool" where
  "truthy cache_file = (case cache_file of None \<Rightarrow> False | Some path \<Rightarrow> path \<noteq> [])"

definition load_cache :: "string option \<Rightarrow> (string \<rightharpoonup> string list list) \<Rightarrow> tikz_document list list" where
  "load_cache cache_file fs =
     (case cache_file of
        None \<Rightarrow> []
      | Some path \<Rightarrow>
          if path = [] then []
          else (case fs path of
                  None \<Rightarrow> []
                | Some json \<Rightarrow>
                    map (\<lambda>sample. map (\<lambda>c. \<lparr>code = c, doc_timeout = None\<rparr>) sample) json))"

text \<open>
  \<^verbatim>\<open>
  for item in tqdm(worker_chunk, ...):
      tikz = generate(pipe, image=item[key], caption=item["caption"], timeout=timeout, ...)
      worker_preds.append(tikz)
  \<close>
  \<open>gen item\<close> is the outcome of the call of \<open>generate\<close> for \<open>item\<close>: \<open>None\<close> when the call
  never returns, \<open>Some (Inl e)\<close> when it raises \<open>e\<close>, \<open>Some (Inr tikz)\<close> when it returns
  the batch \<open>tikz\<close>. The loop returns the list \<open>worker_preds\<close> as it stands at the end,
  and the exception that ended it, if any.
\<close>

fun predict_loop ::
  "('i \<Rightarrow> ('e py_error + 'a list) option) \<Rightarrow> 'i list \<Rightarrow> 'a list list \<Rightarrow>
   ('a list list \<times> 'e py_error option) option" where
  "predict_loop gen [] worker_preds = Some (worker_preds, None)"
| "predict_loop gen (item # items) worker_preds =
     (case gen item of
        None \<Rightarrow> None
      | Some (Inl e) \<Rightarrow> Some (worker_preds, Some e)
      | Some (Inr tikz) \<Rightarrow> predict_loop gen items (worker_preds @ [tikz]))"

text \<open>
  The body of the \<open>try\<close> block:
  \<^verbatim>\<open>
  worker_chunk = list(chunk(list(testset)[len(predictions):], WORLD_SIZE))[RANK]
  \<close>
  followed by the loop. \<open>WORLD_SIZE\<close> and \<open>RANK\<close> are the globals read from the
  environment, natural numbers here; indexing the list of chunks at a \<open>RANK\<close> that is
  not below its length raises \<open>IndexError\<close>.
\<close>

definition predict_try ::
  "('i \<Rightarrow> ('e py_error + 'a list) option) \<Rightarrow> nat \<Rightarrow> nat \<Rightarrow> 'i list \<Rightarrow>
   ('a list list \<times> 'e py_error option) option" where
  "predict_try gen WORLD_SIZE RANK remaining =
     (let chunks = chunk remaining WORLD_SIZE
      in if RANK < length chunks then predict_loop gen (chunks ! RANK) []
         else Some ([], Some IndexError))"

text \<open>
  \<open>dist.all_gather_object(gathered := WORLD_SIZE * [None], worker_preds)\<close> fills the
  slot of every rank with the list of that rank: this worker's own list in its own
  slot, and \<open>peers r\<close>, the list of the worker of rank \<open>r\<close>, in the others.
\<close>

definition all_gather :: "nat \<Rightarrow> nat \<Rightarrow> (nat \<Rightarrow> 'x) \<Rightarrow> 'x \<Rightarrow> 'x list" where
  "all_gather WORLD_SIZE RANK peers mine =
     map (\<lambda>r. if r = RANK then mine else peers r) [0..<WORLD_SIZE]"

text \<open>
  The \<open>finally\<close> block:
  \<^verbatim>\<open>
  dist.all_gather_object(gathered:=WORLD_SIZE * [None], worker_preds)
  predictions.extend(interleave(gathered))
  if cache_file and RANK == 0:
      with open(cache_file, 'w') as f:
          dump([[p.code for p in ps] for ps in predictions], f)
  \<close>
  It returns the world after it and the list \<open>predictions\<close>; it does not return when
  \<open>interleave\<close> does not.
\<close>

definition predict_finally ::
  "nat \<Rightarrow> nat \<Rightarrow> (nat \<Rightarrow> tikz_document list list) \<Rightarrow> string option \<Rightarrow>
   tikz_document list list \<Rightarrow> tikz_document list list \<Rightarrow> world \<Rightarrow>
   (world \<times> tikz_document list list) option" where
  "predict_finally WORLD_SIZE RANK peers cache_file predictions worker_preds w =
     (let gathered = all_gather WORLD_SIZE RANK peers worker_preds;
          w1 = w\<lparr>sent := sent w @ [worker_preds]\<rparr>
      in case interleave gathered of
           None \<Rightarrow> None
         | Some interleaved \<Rightarrow>
             let predictions' = predictions @ interleaved
             in Some (if truthy cache_file \<and> RANK = 0
                      then w1\<lparr>files := (files w1)(the cache_file \<mapsto>
                                 map (\<lambda>ps. map code ps) predictions')\<rparr>
                      else w1,
                      predictions'))"

text \<open>
  \<open>predict\<close>. \<open>load_failure\<close> is the exception raised while the model, the tokenizer
  and the pipeline are set up (lines 119--137), if any: that code runs before the
  \<open>try\<close>. An exception of the \<open>try\<close> block is raised again after the \<open>finally\<close> block.
\<close>

definition predict ::
  "'e py_error option \<Rightarrow> ('i \<Rightarrow> ('e py_error + tikz_document list) option) \<Rightarrow>
   (nat \<Rightarrow> tikz_document list list) \<Rightarrow> nat \<Rightarrow> nat \<Rightarrow> 'i list \<Rightarrow> string option \<Rightarrow> world \<Rightarrow>
   (world \<times> ('e py_error + tikz_document list list)) option" where
  "predict load_failure gen peers WORLD_SIZE RANK testset cache_file w =
     (case load_failure of
        Some e \<Rightarrow> Some (w, Inl e)
      | None \<Rightarrow>
          let predictions = load_cache cache_file (files w)
          in case predict_try gen WORLD_SIZE RANK (drop (length predictions) testset) of
               None \<Rightarrow> None
             | Some (worker_preds, raised) \<Rightarrow>
                 (case predict_finally WORLD_SIZE RANK peers cache_file predictions
                         worker_preds w of
                    None \<Rightarrow> None
                  | Some (w', predictions') \<Rightarrow>
                      Some (w', case raised of Some e \<Rightarrow> Inl e | None \<Rightarrow> Inr predictions')))"

section \<open>The metric aggregation \<open>compute\<close> (examples/eval.py, lines 157--199)\<close>

text \<open>
  \<open>winsorize\<close> is \<open>scipy.stats.mstats.winsorize\<close>, a library function outside the
  repository, called as \<open>winsorize(array(samples), limits=limit)\<close> with \<open>limit = 0.05\<close>.
  A single float limit stands for the same limit on both sides, and with the default
  \<open>inclusive=(True, True)\<close> the number of values replaced on each side is the
  truncation \<open>int(limit * n)\<close> of the \<open>n\<close> values. On a one-dimensional array \<open>a\<close>:
  \<^verbatim>\<open>
  n = a.count()
  idx = a.argsort()
  lowidx = int(low_limit * n)
  a[idx[:lowidx]] = a[idx[lowidx]]
  upidx = n - int(n * up_limit)
  a[idx[upidx:]] = a[idx[upidx - 1]]
  \<close>
  The model is for a limit \<open>0 < limit\<close>, in exact arithmetic on real numbers. Reading
  \<open>idx[lowidx]\<close> when \<open>lowidx\<close> is not below \<open>n\<close> (an empty array, too) is an
  \<open>IndexError\<close>.
\<close>

definition argsort :: "real list \<Rightarrow> nat list" where
  "argsort a = sort_key (\<lambda>i. a ! i) [0..<length a]"

definition winsorize :: "real list \<Rightarrow> real \<Rightarrow> 'e py_error + real list" where
  "winsorize a limit =
     (let n = length a;
          idx = argsort a;
          lowidx = nat \<lfloor>limit * real n\<rfloor>;
          upidx = n - nat \<lfloor>real n * limit\<rfloor>
      in if n \<le> lowidx then Inl IndexError
         else let a1 = fold (\<lambda>p b. b[p := a ! (idx ! lowidx)]) (take lowidx idx) a;
                  a2 = fold (\<lambda>p b. b[p := a1 ! (idx ! (upidx - 1))]) (drop upidx idx) a1
              in Inr a2)"

definition mean :: "real list \<Rightarrow> real" where
  "mean xs = sum_list xs / real (length xs)"

text \<open>
  \<^verbatim>\<open>
  def mean_token_efficiency(predictions, limit=0.05):
      samples = list()
      for preds in predictions:
          samples.append(len(preds[-1].code)/sum(len(pred.code) for pred in preds))
      return winsorize(array(samples), limits=limit).mean().item()
  \<close>
  \<open>preds[-1]\<close> raises \<open>IndexError\<close> on an empty list, and the division raises
  \<open>ZeroDivisionError\<close> when all the codes are empty.
\<close>

definition token_ratio :: "tikz_document list \<Rightarrow> 'e py_error + real" where
  "token_ratio preds =
     (if preds = [] then Inl IndexError
      else let total = sum_list (map (\<lambda>pred. length (code pred)) preds)
           in if total = 0 then Inl ZeroDivisionError
              else Inr (real (length (code (last preds))) / real total))"

fun token_samples :: "tikz_document list list \<Rightarrow> 'e py_error + real list" where
  "token_samples [] = Inr []"
| "token_samples (preds # predictions) =
     (case token_ratio preds of
        Inl e \<Rightarrow> Inl e
      | Inr r \<Rightarrow> (case token_samples predictions of
                    Inl e \<Rightarrow> Inl e
                  | Inr samples \<Rightarrow> Inr (r # samples)))"

definition mean_token_efficiency :: "tikz_document list list \<Rightarrow> 'e py_error + real" where
  "mean_token_efficiency predictions =
     (case token_samples predictions of
        Inl e \<Rightarrow> Inl e
      | Inr samples \<Rightarrow> (case winsorize samples (5 / 100) of
                          Inl e \<Rightarrow> Inl e
                        | Inr ws \<Rightarrow> Inr (mean ws)))"

text \<open>
  \<^verbatim>\<open>
  def mean_sampling_throughput(predictions, limit=0.05):
      return winsorize(array(list(map(len, predictions))), limits=limit).mean().item()
  \<close>
\<close>

definition mean_sampling_throughput :: "tikz_document list list \<Rightarrow> 'e py_error + real" where
  "mean_sampling_throughput predictions =
     (case winsorize (map (\<lambda>preds. real (length preds)) predictions) (5 / 100) of
        Inl e \<Rightarrow> Inl e
      | Inr ws \<Rightarrow> Inr (mean ws))"

text \<open>
  Lines 179--197 of \<open>compute\<close>: the dictionary \<open>scores\<close> starts with the structural
  statistic; then every metric object is updated, computed and reset, and its value
  is stored under \<open>str(metric)\<close>. The metric objects are outside this file:
  \<open>metrics references predictions\<close> is the list of their names and values, in the
  order of the loop. The dictionary is an association list in insertion order;
  assigning to a key that is present replaces its value in place.
\<close>

definition compute_scores ::
  "('r list \<Rightarrow> tikz_document list list \<Rightarrow> (string \<times> real) list) \<Rightarrow> bool \<Rightarrow> 'r list \<Rightarrow>
   tikz_document list list \<Rightarrow> 'e py_error + (string \<times> real) list" where
  "compute_scores metrics measure_throughput references predictions =
     (case (if measure_throughput
            then (case mean_sampling_throughput predictions of
                    Inl e \<Rightarrow> Inl e | Inr v \<Rightarrow> Inr (''MeanSamplingThroughput'', v))
            else (case mean_token_efficiency predictions of
                    Inl e \<Rightarrow> Inl e | Inr v \<Rightarrow> Inr (''MeanTokenEfficiency'', v))) of
        Inl e \<Rightarrow> Inl e
      | Inr stat \<Rightarrow>
          Inr (fold (\<lambda>(name, v) scores. AList.update name v scores)
                 (metrics references predictions) [stat]))"

text \<open>
  Lines 175--177 of \<open>compute\<close>: the list comprehensions read \<open>pred[-1]\<close> for every
  prediction, which raises \<open>IndexError\<close> on an empty one, before the assertion
  \<open>assert all(pred[-1].is_rasterizable for pred in predictions)\<close> is evaluated.
\<close>

definition compute ::
  "(tikz_document \<Rightarrow> bool) \<Rightarrow> ('r list \<Rightarrow> tikz_document list list \<Rightarrow> (string \<times> real) list) \<Rightarrow>
   bool \<Rightarrow> 'r list \<Rightarrow> tikz_document list list \<Rightarrow> 'e py_error + (string \<times> real) list" where
  "compute is_rasterizable metrics measure_throughput references predictions =
     (if \<exists>pred \<in> set predictions. pred = [] then Inl IndexError
      else if \<not> (\<forall>pred \<in> set predictions. is_rasterizable (last pred)) then Inl AssertionError
      else compute_scores metrics measure_throughput references predictions)"

section \<open>Properties of \<open>chunk\<close> and \<open>interleave\<close>\<close>

lemma length_slice_step: "0 < n \<Longrightarrow> length (slice_step l i n) = slice_len (length l) i n"
  by (simp add: slice_step_def)

lemma slice_len_less: "0 < n \<Longrightarrow> idx < slice_len len i n \<longleftrightarrow> i + idx * n < len"
proof (cases "i < len")
  case True
  assume n: "0 < n"
  have "idx < (len - i - 1) div n + 1 \<longleftrightarrow> idx * n \<le> len - i - 1"
    using n by (simp add: less_Suc_eq_le less_eq_div_iff_mult_less_eq)
  also have "\<dots> \<longleftrightarrow> i + idx * n < len" using True by arith
  finally show ?thesis using True by (simp add: slice_len_def)
next
  case False
  then show ?thesis by (simp add: slice_len_def)
qed

lemma slice_step_nth:
  "0 < n \<Longrightarrow> i + idx * n < length l \<Longrightarrow> slice_step l i n ! idx = l ! (i + idx * n)"
  using slice_len_less [of n idx "length l" i] by (simp add: slice_step_def)

lemma extend_round_chunk:
  assumes n: "0 < n"
  shows "w \<le> n \<Longrightarrow> idx * n + w \<le> length l \<Longrightarrow>
     extend_round idx (map (\<lambda>i. slice_step l i n) [w..<n]) (take (idx * n + w) l) =
       (if idx * n + n \<le> length l then (take (idx * n + n) l, False) else (l, True))"
proof (induction "n - w" arbitrary: w)
  case 0
  then show ?case by simp
next
  case (Suc k)
  then have w: "w < n" by arith
  have up: "[w..<n] = w # [Suc w..<n]" using w by (simp add: upt_conv_Cons)
  show ?case
  proof (cases "w + idx * n < length l")
    case True
    have tk: "take (idx * n + w) l @ [l ! (w + idx * n)] = take (idx * n + Suc w) l"
      using True by (simp add: take_Suc_conv_app_nth add.commute)
    have "extend_round idx (map (\<lambda>i. slice_step l i n) [w..<n]) (take (idx * n + w) l) =
          extend_round idx (map (\<lambda>i. slice_step l i n) [Suc w..<n]) (take (idx * n + Suc w) l)"
      using True n tk by (simp add: up length_slice_step slice_len_less slice_step_nth)
    also have "\<dots> = (if idx * n + n \<le> length l then (take (idx * n + n) l, False) else (l, True))"
      using Suc.hyps(1) [of "Suc w"] Suc.hyps(2) w True by simp
    finally show ?thesis .
  next
    case False
    then have "idx * n + w = length l" using Suc.prems by arith
    then show ?thesis using False n w
      by (simp add: up length_slice_step slice_len_less)
  qed
qed

lemma interleave_loop_chunk:
  assumes n: "0 < n"
  shows "idx * n \<le> length l \<Longrightarrow> interleave_loop (chunk l n) idx (take (idx * n) l) = Some l"
proof (induction "length l - idx * n" arbitrary: idx rule: less_induct)
  case less
  have r: "extend_round idx (chunk l n) (take (idx * n) l) =
       (if idx * n + n \<le> length l then (take (idx * n + n) l, False) else (l, True))"
    using extend_round_chunk [OF n, of 0 idx l] less.prems by (simp add: chunk_def)
  show ?case
  proof (cases "idx * n + n \<le> length l")
    case True
    have "interleave_loop (chunk l n) (Suc idx) (take (Suc idx * n) l) = Some l"
      using less.hyps [of "Suc idx"] True n by simp
    then show ?thesis using True r
      by (subst interleave_loop.simps) (simp add: add.commute)
  next
    case False
    then show ?thesis using r by (subst interleave_loop.simps) simp
  qed
qed

lemma interleave_chunk: "0 < n \<Longrightarrow> interleave (chunk l n) = Some l"
  using interleave_loop_chunk [of n 0 l] by (simp add: interleave_def)

lemma slice_len_even:
  assumes "0 < n" "i < n" "len mod n = 0"
  shows "slice_len len i n = len div n"
proof (cases "len = 0")
  case True
  then show ?thesis by (simp add: slice_len_def)
next
  case False
  obtain q where q: "len = n * q" using assms(3) by auto
  with False have q0: "0 < q" by simp
  then obtain p where p: "q = Suc p" by (cases q) auto
  have il: "i < len" using assms(2) q p by (simp add: trans_less_add1)
  have "len - i - 1 = (n - i - 1) + p * n"
    using assms(2) q p by (simp add: algebra_simps)
  moreover have "n - i - 1 < n" using assms(1) by arith
  ultimately have "(len - i - 1) div n = p" by simp
  then show ?thesis using il q p assms(1) by (simp add: slice_len_def)
qed

lemma length_chunk_even:
  assumes "0 < n" "length l mod n = 0" "c \<in> set (chunk l n)"
  shows "length c = length l div n"
  using assms by (auto simp: chunk_def length_slice_step slice_len_even)

text \<open>
  Claim C1. For every sequence \<open>S\<close> and every \<open>n \<ge> 1\<close> with \<open>len(S) mod n = 0\<close>,
  \<open>interleave\<close> applied to the list of the \<open>n\<close> chunks of \<open>chunk(S, n)\<close> returns, and
  returns exactly \<open>S\<close>. The chunks then all have the length \<open>len(S) // n\<close>, and the
  result is the prefix \<open>S[:n * (len(S) // n)]\<close>, which is \<open>S\<close> itself.
\<close>

theorem chunk_interleave_roundtrip:
  assumes "1 \<le> n" and "length S mod n = 0"
  shows "interleave (chunk S n) = Some S \<and>
         (\<forall>c \<in> set (chunk S n). length c = length S div n) \<and>
         interleave (chunk S n) = Some (take (n * (length S div n)) S)"
proof -
  have n: "0 < n" using assms(1) by simp
  have "n * (length S div n) = length S" using assms(2) by auto
  then show ?thesis
    using interleave_chunk [OF n, of S] length_chunk_even [OF n assms(2)] by simp
qed

theorem chunk_interleave_roundtrip_witness:
  "(1::nat) \<le> 2 \<and> length [10, 20, 30, 40 :: int] mod 2 = 0 \<and>
   chunk [10, 20, 30, 40 :: int] 2 = [[10, 30], [20, 40]] \<and>
   interleave (chunk [10, 20, 30, 40 :: int] 2) = Some [10, 20, 30, 40] \<and>
   interleave (chunk [10, 20, 30, 40 :: int] 2) =
     Some (take (2 * (length [10, 20, 30, 40 :: int] div 2)) [10, 20, 30, 40])"
proof -
  have c: "chunk [10, 20, 30, 40 :: int] 2 = [[10, 30], [20, 40]]"
    by code_simp
  show ?thesis
    using chunk_interleave_roundtrip [of 2 "[10, 20, 30, 40 :: int]"] c by simp
qed

text \<open>
  Claim C10. For every finite sequence \<open>S\<close> and every \<open>n \<ge> 1\<close>, also when \<open>len(S)\<close>
  is not a multiple of \<open>n\<close>, \<open>interleave\<close> applied to the list of chunks of
  \<open>chunk(S, n)\<close> returns, and returns exactly \<open>S\<close>: the longer chunks come first,
  and the items appended in the last, partial round before the first out-of-range
  access are kept.
\<close>

theorem interleave_chunk_identity:
  "1 \<le> n \<Longrightarrow> interleave (chunk S n) = Some S"
  using interleave_chunk [of n S] by simp

theorem interleave_chunk_identity_witness:
  "(1::nat) \<le> 2 \<and> length [10, 20, 30, 40, 50 :: int] mod 2 \<noteq> 0 \<and>
   chunk [10, 20, 30, 40, 50 :: int] 2 = [[10, 30, 50], [20, 40]] \<and>
   interleave (chunk [10, 20, 30, 40, 50 :: int] 2) = Some [10, 20, 30, 40, 50]"
proof -
  have c: "chunk [10, 20, 30, 40, 50 :: int] 2 = [[10, 30, 50], [20, 40]]"
    by code_simp
  show ?thesis
    using interleave_chunk_identity [of 2 "[10, 20, 30, 40, 50 :: int]"] c by simp
qed

section \<open>Properties of \<open>generate\<close>\<close>

lemma loop_unfold:
  "generate_loop isr cwe strict timeout sim start now st =
     (case sim (consumed st) of
        None \<Rightarrow> Some st
      | Some item \<Rightarrow>
          if snd (generate_step isr cwe strict timeout start (now (consumed st)) st item)
          then Some (fst (generate_step isr cwe strict timeout start (now (consumed st)) st item))
          else generate_loop isr cwe strict timeout sim start now
                 (fst (generate_step isr cwe strict timeout start (now (consumed st)) st item)))"
  by (subst generate_loop.simps) (simp add: case_prod_beta split: option.split)

lemma step_consumed:
  "consumed (fst (generate_step isr cwe strict timeout start t st item)) = Suc (consumed st)"
  by (cases item) (simp add: generate_step_def Let_def)

lemma step_tikzpics:
  "tikzpics (fst (generate_step isr cwe strict timeout start t st item)) = insert item (tikzpics st)"
  by (cases item) (simp add: generate_step_def Let_def)

lemma step_success:
  "success (fst (generate_step isr cwe strict timeout start t st item)) =
     (success st \<or> spec_criterion isr cwe strict (snd item))"
  by (cases item) (simp add: generate_step_def Let_def spec_criterion_def)

lemma step_stop:
  "snd (generate_step isr cwe strict timeout start t st item) =
     ((success st \<or> spec_criterion isr cwe strict (snd item)) \<and> budget_spent timeout start t)"
  by (cases item) (simp add: generate_step_def Let_def spec_criterion_def)

lemma loop_induct_weak:
  assumes run: "generate_loop isr cwe strict timeout sim start now st = Some st'"
    and exhausted: "\<And>st. sim (consumed st) = None \<Longrightarrow> P st st"
    and break: "\<And>st item. sim (consumed st) = Some item \<Longrightarrow>
        snd (generate_step isr cwe strict timeout start (now (consumed st)) st item) \<Longrightarrow>
        P st (fst (generate_step isr cwe strict timeout start (now (consumed st)) st item))"
    and continue: "\<And>st item st'. sim (consumed st) = Some item \<Longrightarrow>
        \<not> snd (generate_step isr cwe strict timeout start (now (consumed st)) st item) \<Longrightarrow>
        P (fst (generate_step isr cwe strict timeout start (now (consumed st)) st item)) st' \<Longrightarrow>
        P st st'"
  shows "P st st'"
proof -
  have "generate_loop isr' cwe' strict' timeout' sim' start' now' st = Some st' \<Longrightarrow>
        isr' = isr \<and> cwe' = cwe \<and> strict' = strict \<and> timeout' = timeout \<and> sim' = sim \<and>
        start' = start \<and> now' = now \<longrightarrow> P st st'"
    for isr' cwe' strict' timeout' sim' start' now'
  proof (induction rule: generate_loop.raw_induct[rotated 1, consumes 1])
    case (1 loop isr' cwe' strict' timeout' sim' start' now' st st')
    show ?case
    proof (intro impI, elim conjE)
      assume eq: "isr' = isr" "cwe' = cwe" "strict' = strict" "timeout' = timeout"
        "sim' = sim" "start' = start" "now' = now"
      show "P st st'"
      proof (cases "sim (consumed st)")
        case None
        with 1(2) eq have "st' = st" by simp
        with exhausted [OF None] show ?thesis by simp
      next
        case (Some item)
        let ?r = "generate_step isr cwe strict timeout start (now (consumed st)) st item"
        show ?thesis
        proof (cases "snd ?r")
          case True
          with 1(2) Some eq have "st' = fst ?r" by (simp add: case_prod_beta)
          with break [OF Some True] show ?thesis by simp
        next
          case False
          with 1(2) Some eq have "loop isr cwe strict timeout sim start now (fst ?r) = Some st'"
            by (simp add: case_prod_beta)
          from 1(1) [OF this] have "P (fst ?r) st'" by simp
          from continue [OF Some False this] show ?thesis .
        qed
      qed
    qed
  qed
  from this [OF run] show ?thesis by simp
qed

lemma loop_induct [consumes 1, case_names exhausted break continue]:
  assumes run: "generate_loop isr cwe strict timeout sim start now st = Some st'"
    and exhausted: "\<And>st. sim (consumed st) = None \<Longrightarrow> P st st"
    and break: "\<And>st item. sim (consumed st) = Some item \<Longrightarrow>
        snd (generate_step isr cwe strict timeout start (now (consumed st)) st item) \<Longrightarrow>
        P st (fst (generate_step isr cwe strict timeout start (now (consumed st)) st item))"
    and continue: "\<And>st item st'. sim (consumed st) = Some item \<Longrightarrow>
        \<not> snd (generate_step isr cwe strict timeout start (now (consumed st)) st item) \<Longrightarrow>
        generate_loop isr cwe strict timeout sim start now
          (fst (generate_step isr cwe strict timeout start (now (consumed st)) st item)) = Some st' \<Longrightarrow>
        P (fst (generate_step isr cwe strict timeout start (now (consumed st)) st item)) st' \<Longrightarrow>
        P st st'"
  shows "P st st'"
proof -
  let ?L = "generate_loop isr cwe strict timeout sim start now"
  have "?L st = Some st' \<longrightarrow> P st st'"
  proof (rule loop_induct_weak [OF run, where P = "\<lambda>a b. ?L a = Some b \<longrightarrow> P a b"], goal_cases)
    case (1 st)
    then show ?case using exhausted by simp
  next
    case (2 st item)
    then show ?case using break by simp
  next
    case (3 st item st')
    let ?r = "generate_step isr cwe strict timeout start (now (consumed st)) st item"
    show ?case
    proof
      assume "?L st = Some st'"
      then have "?L (fst ?r) = Some st'" using 3(1,2) by (subst (asm) loop_unfold) simp
      with 3 continue show "P st st'" by blast
    qed
  qed
  with run show ?thesis by simp
qed

lemma interval_all_step:
  "(\<forall>k. Suc c \<le> k \<and> k < m \<longrightarrow> Q k) \<Longrightarrow> Q c \<Longrightarrow> (\<forall>k. c \<le> k \<and> k < m \<longrightarrow> Q k)"
  by (metis Suc_leI le_neq_implies_less)

lemma interval_ex_step:
  "c < m \<Longrightarrow> (\<exists>k. c \<le> k \<and> k < m \<and> Q k) \<longleftrightarrow> Q c \<or> (\<exists>k. Suc c \<le> k \<and> k < m \<and> Q k)"
  by (metis Suc_leI Suc_le_lessD le_neq_implies_less order_refl less_imp_le)

lemma loop_consumed_le:
  "generate_loop isr cwe strict timeout sim start now st = Some st' \<Longrightarrow>
     consumed st \<le> consumed st'"
  by (induction rule: loop_induct) (simp_all add: step_consumed)

lemma loop_items_defined:
  "generate_loop isr cwe strict timeout sim start now st = Some st' \<Longrightarrow>
     \<forall>k. consumed st \<le> k \<and> k < consumed st' \<longrightarrow> sim k \<noteq> None"
proof (induction rule: loop_induct)
  case (exhausted st)
  then show ?case by auto
next
  case (break st item)
  then show ?case by (auto simp: step_consumed less_Suc_eq_le)
next
  case (continue st item st')
  show ?case
    by (rule interval_all_step) (use continue in \<open>simp_all add: step_consumed\<close>)
qed

lemma seen_empty: "seen sim c c = {}"
  by (simp add: seen_def List.map_filter_simps)

lemma seen_step: "c < m \<Longrightarrow> sim c = Some x \<Longrightarrow> seen sim c m = insert x (seen sim (Suc c) m)"
  by (simp add: seen_def upt_conv_Cons List.map_filter_simps)

lemma seen_from_start: "seen sim 0 m = {x. \<exists>k<m. sim k = Some x}"
  by (force simp: seen_def List.map_filter_def)

lemma loop_tikzpics:
  "generate_loop isr cwe strict timeout sim start now st = Some st' \<Longrightarrow>
     tikzpics st' = tikzpics st \<union> seen sim (consumed st) (consumed st')"
proof (induction rule: loop_induct)
  case (exhausted st)
  then show ?case by (simp add: seen_empty)
next
  case (break st item)
  then show ?case
    using seen_step [of "consumed st" "Suc (consumed st)" sim item]
    by (simp add: step_consumed step_tikzpics seen_empty)
next
  case (continue st item st')
  have "consumed st < consumed st'"
    using loop_consumed_le [OF continue(3)] by (simp add: step_consumed)
  then show ?case using continue seen_step [of "consumed st" "consumed st'" sim item]
    by (simp add: step_consumed step_tikzpics)
qed

lemma ok_at_Some: "sim k = Some item \<Longrightarrow> ok_at ok sim k = ok (snd item)"
  by (cases item) (simp add: ok_at_def)

lemma spec_success_ok_at: "spec_success ok sim k = (\<exists>j. 0 \<le> j \<and> j \<le> k \<and> ok_at ok sim j)"
  by (auto simp: spec_success_def ok_at_def)

lemma interval_ex_le_step:
  "c \<le> k \<Longrightarrow> (\<exists>j. c \<le> j \<and> j \<le> k \<and> Q j) \<longleftrightarrow> Q c \<or> (\<exists>j. Suc c \<le> j \<and> j \<le> k \<and> Q j)"
  by (metis Suc_leI le_neq_implies_less order_refl Suc_leD)

lemma loop_success:
  "generate_loop isr cwe strict timeout sim start now st = Some st' \<Longrightarrow>
     success st' = (success st \<or>
       (\<exists>k. consumed st \<le> k \<and> k < consumed st' \<and> ok_at (spec_criterion isr cwe strict) sim k))"
proof (induction rule: loop_induct)
  case (exhausted st)
  then show ?case by auto
next
  case (break st item)
  then show ?case
    by (auto simp: step_consumed step_success less_Suc_eq_le ok_at_Some)
next
  case (continue st item st')
  have lt: "consumed st < consumed st'"
    using loop_consumed_le [OF continue(3)] by (simp add: step_consumed)
  show ?case
    using continue(4) continue(1)
    by (simp add: step_consumed step_success ok_at_Some
         interval_ex_step [OF lt, of "ok_at (spec_criterion isr cwe strict) sim"])
qed

lemma loop_exit:
  "generate_loop isr cwe strict timeout sim start now st = Some st' \<Longrightarrow>
     sim (consumed st') = None \<or>
     (consumed st < consumed st' \<and> success st' \<and>
      budget_spent timeout start (now (consumed st' - 1)))"
proof (induction rule: loop_induct)
  case (exhausted st)
  then show ?case by simp
next
  case (break st item)
  then show ?case by (simp add: step_consumed step_success step_stop)
next
  case (continue st item st')
  then show ?case by (auto simp: step_consumed)
qed

lemma loop_no_skip:
  "generate_loop isr cwe strict timeout sim start now st = Some st' \<Longrightarrow>
     \<forall>k. consumed st \<le> k \<and> Suc k < consumed st' \<longrightarrow>
       \<not> ((success st \<or> (\<exists>j. consumed st \<le> j \<and> j \<le> k \<and> ok_at (spec_criterion isr cwe strict) sim j)) \<and>
          budget_spent timeout start (now k))"
proof (induction rule: loop_induct)
  case (exhausted st)
  then show ?case by auto
next
  case (break st item)
  then show ?case by (auto simp: step_consumed)
next
  case (continue st item st')
  let ?ok = "ok_at (spec_criterion isr cwe strict) sim"
  show ?case
  proof (intro allI impI)
    fix k assume k: "consumed st \<le> k \<and> Suc k < consumed st'"
    show "\<not> ((success st \<or> (\<exists>j. consumed st \<le> j \<and> j \<le> k \<and> ?ok j)) \<and> budget_spent timeout start (now k))"
    proof (cases "k = consumed st")
      case True
      have "(\<exists>j. consumed st \<le> j \<and> j \<le> consumed st \<and> ?ok j) = ?ok (consumed st)"
        by (metis order_refl le_antisym)
      then show ?thesis using continue(2) True
        by (simp add: step_stop ok_at_Some [where sim = sim and k = "consumed st" and item = item, OF continue(1)])
    next
      case False
      then have k': "Suc (consumed st) \<le> k" using k by arith
      then have "consumed st \<le> k" by simp
      from interval_ex_le_step [OF this, of ?ok] continue(4) k k'
      show ?thesis
        by (simp add: step_consumed step_success ok_at_Some [where sim = sim and k = "consumed st" and item = item, OF continue(1)])
    qed
  qed
qed

lemma loop_stops:
  assumes "consumed st \<le> k"
    and "\<forall>j. consumed st \<le> j \<and> j \<le> k \<longrightarrow> sim j \<noteq> None"
    and "(success st \<or> (\<exists>j. consumed st \<le> j \<and> j \<le> k \<and> ok_at (spec_criterion isr cwe strict) sim j)) \<and>
         budget_spent timeout start (now k)"
    and "\<forall>i. consumed st \<le> i \<and> i < k \<longrightarrow>
         \<not> ((success st \<or> (\<exists>j. consumed st \<le> j \<and> j \<le> i \<and> ok_at (spec_criterion isr cwe strict) sim j)) \<and>
            budget_spent timeout start (now i))"
  shows "\<exists>st'. generate_loop isr cwe strict timeout sim start now st = Some st' \<and> consumed st' = Suc k"
  using assms
proof (induction "k - consumed st" arbitrary: st)
  case 0
  then have k: "k = consumed st" by simp
  then obtain item where item: "sim (consumed st) = Some item" using 0(3) by auto
  have "(\<exists>j. consumed st \<le> j \<and> j \<le> consumed st \<and> ok_at (spec_criterion isr cwe strict) sim j)
        = ok_at (spec_criterion isr cwe strict) sim (consumed st)"
    by (metis order_refl le_antisym)
  then have "snd (generate_step isr cwe strict timeout start (now (consumed st)) st item)"
    using 0(4) k by (simp add: step_stop ok_at_Some [where sim = sim and k = "consumed st" and item = item, OF item])
  then show ?case using item k
    by (subst loop_unfold) (simp add: step_consumed)
next
  case (Suc d)
  let ?ok = "ok_at (spec_criterion isr cwe strict) sim"
  have lt: "consumed st < k" using Suc(2) by arith
  then obtain item where item: "sim (consumed st) = Some item" using Suc(4) by (metis less_imp_le order_refl not_None_eq)
  let ?r = "generate_step isr cwe strict timeout start (now (consumed st)) st item"
  have one: "(\<exists>j. consumed st \<le> j \<and> j \<le> consumed st \<and> ?ok j) = ?ok (consumed st)"
    by (metis order_refl le_antisym)
  have nostop: "\<not> snd ?r"
    using Suc(6) lt one by (auto simp: step_stop ok_at_Some [where sim = sim and k = "consumed st" and item = item, OF item])
  have c1: "consumed (fst ?r) = Suc (consumed st)" by (simp add: step_consumed)
  have s1: "success (fst ?r) = (success st \<or> ?ok (consumed st))"
    by (simp add: step_success ok_at_Some [where sim = sim and k = "consumed st" and item = item, OF item])
  have split: "\<And>i. consumed st < i \<Longrightarrow>
     (success (fst ?r) \<or> (\<exists>j. consumed (fst ?r) \<le> j \<and> j \<le> i \<and> ?ok j)) =
     (success st \<or> (\<exists>j. consumed st \<le> j \<and> j \<le> i \<and> ?ok j))"
    using interval_ex_le_step [of "consumed st" _ ?ok] by (simp add: c1 s1 less_imp_le)
  have "\<exists>st'. generate_loop isr cwe strict timeout sim start now (fst ?r) = Some st' \<and> consumed st' = Suc k"
  proof (rule Suc(1))
    show "d = k - consumed (fst ?r)" using Suc(2) c1 by simp
    show "consumed (fst ?r) \<le> k" using lt c1 by simp
    show "\<forall>j. consumed (fst ?r) \<le> j \<and> j \<le> k \<longrightarrow> sim j \<noteq> None"
      using Suc(4) c1 by simp
    show "(success (fst ?r) \<or> (\<exists>j. consumed (fst ?r) \<le> j \<and> j \<le> k \<and> ?ok j)) \<and> budget_spent timeout start (now k)"
      using Suc(5) split [OF lt] by simp
    show "\<forall>i. consumed (fst ?r) \<le> i \<and> i < k \<longrightarrow>
         \<not> ((success (fst ?r) \<or> (\<exists>j. consumed (fst ?r) \<le> j \<and> j \<le> i \<and> ?ok j)) \<and> budget_spent timeout start (now i))"
    proof (intro allI impI)
      fix i assume i: "consumed (fst ?r) \<le> i \<and> i < k"
      then have "consumed st < i" using c1 by simp
      from split [OF this] Suc(6) i c1 
      show "\<not> ((success (fst ?r) \<or> (\<exists>j. consumed (fst ?r) \<le> j \<and> j \<le> i \<and> ?ok j)) \<and> budget_spent timeout start (now i))"
        by simp
    qed
  qed
  then show ?case using item nostop by (subst loop_unfold) simp
qed

lemma budget_spent_clock:
  "start \<le> t \<Longrightarrow> budget_spent timeout start t =
     (case timeout of None \<Rightarrow> True | Some s \<Rightarrow> of_int s \<le> t - start)"
  by (auto simp: budget_spent_def split: option.splits)

lemma spec_stop_clock:
  "start \<le> t \<Longrightarrow> spec_stop timeout a (t - start) = (a \<and> budget_spent timeout start t)"
  by (simp add: budget_spent_clock spec_stop_def)

lemma spec_success_iff: "spec_success ok sim k = (\<exists>j\<le>k. ok_at ok sim j)"
  by (auto simp: spec_success_def ok_at_def)

lemma run_no_skip:
  assumes "generate_loop isr cwe strict timeout sim start now generate_init = Some st"
  shows "\<forall>k. Suc k < consumed st \<longrightarrow>
     \<not> ((\<exists>j\<le>k. ok_at (spec_criterion isr cwe strict) sim j) \<and> budget_spent timeout start (now k))"
  using loop_no_skip [OF assms] by (simp add: generate_init_def)

lemma run_exit:
  assumes "generate_loop isr cwe strict timeout sim start now generate_init = Some st"
  shows "sim (consumed st) = None \<or>
     (0 < consumed st \<and> success st \<and> budget_spent timeout start (now (consumed st - 1)))"
  using loop_exit [OF assms] by (simp add: generate_init_def)

lemma run_success:
  assumes "generate_loop isr cwe strict timeout sim start now generate_init = Some st"
  shows "success st = (\<exists>k<consumed st. ok_at (spec_criterion isr cwe strict) sim k)"
  using loop_success [OF assms] by (simp add: generate_init_def)

lemma run_tikzpics:
  assumes "generate_loop isr cwe strict timeout sim start now generate_init = Some st"
  shows "tikzpics st = {x. \<exists>k<consumed st. sim k = Some x}"
  using loop_tikzpics [OF assms] by (simp add: generate_init_def seen_from_start)

lemma run_items_defined:
  assumes "generate_loop isr cwe strict timeout sim start now generate_init = Some st"
  shows "\<forall>k<consumed st. sim k \<noteq> None"
  using loop_items_defined [OF assms] by (simp add: generate_init_def)

lemma run_stops:
  assumes "\<forall>j\<le>k. sim j \<noteq> None"
    and "(\<exists>j\<le>k. ok_at (spec_criterion isr cwe strict) sim j) \<and> budget_spent timeout start (now k)"
    and "\<forall>i<k. \<not> ((\<exists>j\<le>i. ok_at (spec_criterion isr cwe strict) sim j) \<and>
                    budget_spent timeout start (now i))"
  shows "\<exists>st'. generate_loop isr cwe strict timeout sim start now generate_init = Some st' \<and>
               consumed st' = Suc k"
  using loop_stops [of generate_init k sim isr cwe strict timeout start now] assms
  by (simp add: generate_init_def)

text \<open>
  Claim C2. For a run of \<open>generate\<close> over a lazy sequence of \<open>(score, artifact)\<close>
  pairs, with a clock that is not set back behind the start of the loop: the loop
  consumes no item after one at which success has been achieved and no timeout was
  specified or the elapsed time has reached the timeout; when it returns before the
  sequence is exhausted, that condition holds at the last consumed item, so it never
  stops before success unless the sequence is exhausted; it does return, right after
  the first item at which the condition holds; with no timeout that is the first
  success.
\<close>

theorem generate_stop_rule:
  assumes clock: "\<forall>k. start \<le> now k"
  shows "(generate_loop is_rasterizable compiled_with_errors strict timeout simulate start now
            generate_init = Some st \<longrightarrow>
          (\<forall>k. Suc k < consumed st \<longrightarrow>
             \<not> spec_stop timeout
                 (spec_success (spec_criterion is_rasterizable compiled_with_errors strict) simulate k)
                 (now k - start)) \<and>
          (simulate (consumed st) \<noteq> None \<longrightarrow>
             0 < consumed st \<and>
             spec_stop timeout
               (spec_success (spec_criterion is_rasterizable compiled_with_errors strict) simulate
                  (consumed st - 1))
               (now (consumed st - 1) - start))) \<and>
         ((\<forall>j \<le> k. simulate j \<noteq> None) \<and>
          spec_stop timeout
            (spec_success (spec_criterion is_rasterizable compiled_with_errors strict) simulate k)
            (now k - start) \<and>
          (\<forall>i < k. \<not> spec_stop timeout
            (spec_success (spec_criterion is_rasterizable compiled_with_errors strict) simulate i)
            (now i - start)) \<longrightarrow>
          (\<exists>st'. generate_loop is_rasterizable compiled_with_errors strict timeout simulate start now
                   generate_init = Some st' \<and> consumed st' = Suc k \<and> success st')) \<and>
         (timeout = None \<and> (\<forall>j \<le> k. simulate j \<noteq> None) \<and>
          spec_success (spec_criterion is_rasterizable compiled_with_errors strict) simulate k \<and>
          (\<forall>i < k. \<not> spec_success (spec_criterion is_rasterizable compiled_with_errors strict)
                       simulate i) \<longrightarrow>
          (\<exists>st'. generate_loop is_rasterizable compiled_with_errors strict timeout simulate start now
                   generate_init = Some st' \<and> consumed st' = Suc k \<and> success st'))"
proof -
  let ?ok = "spec_criterion is_rasterizable compiled_with_errors strict"
  let ?L = "generate_loop is_rasterizable compiled_with_errors strict timeout simulate start now"
  let ?stop = "\<lambda>k. spec_stop timeout (spec_success ?ok simulate k) (now k - start)"
  have stop_eq: "?stop k = ((\<exists>j\<le>k. ok_at ?ok simulate j) \<and> budget_spent timeout start (now k))"
    for k
    using clock by (simp add: spec_stop_clock spec_success_iff)
  have A: "?L generate_init = Some st \<longrightarrow>
          (\<forall>k. Suc k < consumed st \<longrightarrow> \<not> ?stop k) \<and>
          (simulate (consumed st) \<noteq> None \<longrightarrow> 0 < consumed st \<and> ?stop (consumed st - 1))"
  proof
    assume run: "?L generate_init = Some st"
    have 1: "\<forall>k. Suc k < consumed st \<longrightarrow> \<not> ?stop k"
      unfolding stop_eq by (rule run_no_skip [OF run])
    have 2: "simulate (consumed st) \<noteq> None \<longrightarrow> 0 < consumed st \<and> ?stop (consumed st - 1)"
    proof
      assume "simulate (consumed st) \<noteq> None"
      with run_exit [OF run] have e: "0 < consumed st" "success st"
        "budget_spent timeout start (now (consumed st - 1))"
        by simp_all
      from e(2) run_success [OF run]
      obtain j where "j < consumed st" "ok_at ?ok simulate j" by auto
      then have "j \<le> consumed st - 1 \<and> ok_at ?ok simulate j" by arith
      then have "\<exists>j\<le>consumed st - 1. ok_at ?ok simulate j" ..
      then show "0 < consumed st \<and> ?stop (consumed st - 1)"
        unfolding stop_eq using e by simp
    qed
    from 1 2 show "(\<forall>k. Suc k < consumed st \<longrightarrow> \<not> ?stop k) \<and>
          (simulate (consumed st) \<noteq> None \<longrightarrow> 0 < consumed st \<and> ?stop (consumed st - 1))" ..
  qed
  have B: "(\<forall>j \<le> k. simulate j \<noteq> None) \<and> ?stop k \<and> (\<forall>i < k. \<not> ?stop i) \<longrightarrow>
          (\<exists>st'. ?L generate_init = Some st' \<and> consumed st' = Suc k \<and> success st')"
  proof
    assume h: "(\<forall>j \<le> k. simulate j \<noteq> None) \<and> ?stop k \<and> (\<forall>i < k. \<not> ?stop i)"
    have "\<exists>st'. ?L generate_init = Some st' \<and> consumed st' = Suc k"
      using h unfolding stop_eq by (intro run_stops) simp_all
    then obtain st' where st': "?L generate_init = Some st'" "consumed st' = Suc k" by blast
    from h obtain j where "j \<le> k" "ok_at ?ok simulate j" unfolding stop_eq by blast
    then have "j < consumed st' \<and> ok_at ?ok simulate j"
      using st'(2) by simp
    then have "\<exists>j<consumed st'. ok_at ?ok simulate j" ..
    then have "success st'" using run_success [OF st'(1)] by simp
    then show "\<exists>st'. ?L generate_init = Some st' \<and> consumed st' = Suc k \<and> success st'"
      using st' by blast
  qed
  have C: "timeout = None \<and> (\<forall>j \<le> k. simulate j \<noteq> None) \<and> spec_success ?ok simulate k \<and>
          (\<forall>i < k. \<not> spec_success ?ok simulate i) \<longrightarrow>
          (\<exists>st'. ?L generate_init = Some st' \<and> consumed st' = Suc k \<and> success st')"
  proof
    assume h: "timeout = None \<and> (\<forall>j \<le> k. simulate j \<noteq> None) \<and> spec_success ?ok simulate k \<and>
          (\<forall>i < k. \<not> spec_success ?ok simulate i)"
    then have "(\<forall>j \<le> k. simulate j \<noteq> None) \<and> ?stop k \<and> (\<forall>i < k. \<not> ?stop i)"
      by (simp add: spec_stop_def)
    with B show "\<exists>st'. ?L generate_init = Some st' \<and> consumed st' = Suc k \<and> success st'" ..
  qed
  show ?thesis by (rule conjI [OF A conjI [OF B C]])
qed

theorem generate_stop_rule_witness:
  "(\<forall>k. (0::real) \<le> real k) \<and>
   (\<exists>st'. generate_loop (\<lambda>c. c = ''good'') (\<lambda>c. c \<noteq> ''good'') False (Some 0)
            (\<lambda>k. Some (int k, if k < 2 then ''bad'' else ''good'')) 0 real generate_init = Some st' \<and>
          consumed st' = 3 \<and> success st')"
proof -
  let ?sim = "\<lambda>k. Some (int k, if k < 2 then ''bad'' else ''good'')"
  let ?ok = "spec_criterion (\<lambda>c. c = ''good'') (\<lambda>c. c \<noteq> ''good'') False"
  have clock: "\<forall>k. (0::real) \<le> real k" by simp
  have defined: "\<forall>j\<le>2. ?sim j \<noteq> None" by simp
  have s2: "spec_success ?ok ?sim 2"
    unfolding spec_success_def by (rule bexI [of _ 2]) (simp_all add: spec_criterion_def)
  have s01: "\<forall>i<2. \<not> spec_success ?ok ?sim i"
    by (auto simp: spec_success_def spec_criterion_def)
  have stop: "spec_stop (Some 0) (spec_success ?ok ?sim 2) (real 2 - 0)"
    using s2 by (simp add: spec_stop_def)
  have nostop: "\<forall>i<2. \<not> spec_stop (Some 0) (spec_success ?ok ?sim i) (real i - 0)"
    using s01 by (simp add: spec_stop_def)
  from generate_stop_rule [OF clock, where k = 2 and simulate = ?sim and timeout = "Some 0"
      and is_rasterizable = "\<lambda>c. c = ''good''" and compiled_with_errors = "\<lambda>c. c \<noteq> ''good''"
      and strict = False]
    defined stop nostop clock
  show ?thesis by (simp add: eval_nat_numeral)
qed

text \<open>
  Claim C5. In \<open>generate\<close>, an artifact triggers success exactly when it is
  rasterizable if \<open>strict\<close> is false, and exactly when it compiled without errors if
  \<open>strict\<close> is true: one pass of the loop body sets \<open>success\<close> by that test and never
  resets it, and the flag of a finished run is true exactly when one of the consumed
  artifacts passes the test.
\<close>

theorem generate_success_criterion:
  "success (fst (generate_step is_rasterizable compiled_with_errors strict timeout start t st
                  (score, tikzpic))) =
     (success st \<or> (if strict then \<not> compiled_with_errors tikzpic else is_rasterizable tikzpic)) \<and>
   (generate_loop is_rasterizable compiled_with_errors strict timeout simulate start now
      generate_init = Some st' \<longrightarrow>
    success st' =
      (\<exists>k<consumed st'. case simulate k of None \<Rightarrow> False
         | Some (score, tikzpic) \<Rightarrow>
             (if strict then \<not> compiled_with_errors tikzpic else is_rasterizable tikzpic)))"
proof
  show "success (fst (generate_step is_rasterizable compiled_with_errors strict timeout start t st
                  (score, tikzpic))) =
     (success st \<or> (if strict then \<not> compiled_with_errors tikzpic else is_rasterizable tikzpic))"
    by (simp add: step_success spec_criterion_def)
  show "generate_loop is_rasterizable compiled_with_errors strict timeout simulate start now
      generate_init = Some st' \<longrightarrow>
    success st' =
      (\<exists>k<consumed st'. case simulate k of None \<Rightarrow> False
         | Some (score, tikzpic) \<Rightarrow>
             (if strict then \<not> compiled_with_errors tikzpic else is_rasterizable tikzpic))"
  proof
    assume run: "generate_loop is_rasterizable compiled_with_errors strict timeout simulate start now
      generate_init = Some st'"
    show "success st' =
      (\<exists>k<consumed st'. case simulate k of None \<Rightarrow> False
         | Some (score, tikzpic) \<Rightarrow>
             (if strict then \<not> compiled_with_errors tikzpic else is_rasterizable tikzpic))"
      by (rule run_success [OF run, unfolded ok_at_def spec_criterion_def])
  qed
qed

theorem generate_success_criterion_witness:
  "success (fst (generate_step (\<lambda>c. c = ''good'') (\<lambda>c. c \<noteq> ''good'') False None 0 0
                  generate_init (1::int, ''good''))) \<and>
   \<not> success (fst (generate_step (\<lambda>c. c = ''good'') (\<lambda>c. c \<noteq> ''good'') True None 0 0
                  generate_init (5::int, ''bad''))) \<and>
   generate_loop (\<lambda>c. c = ''good'') (\<lambda>c. c \<noteq> ''good'') False None
     (\<lambda>k. if k = 0 then Some (5::int, ''bad'') else if k = 1 then Some (1, ''good'') else None)
     0 (\<lambda>k. 0) generate_init =
   Some \<lparr>success = True, tikzpics = {(1, ''good''), (5, ''bad'')}, consumed = 2\<rparr> \<and>
   success \<lparr>success = True, tikzpics = {(1::int, ''good''), (5, ''bad'')}, consumed = 2\<rparr> =
     (\<exists>k<consumed \<lparr>success = True, tikzpics = {(1::int, ''good''), (5, ''bad'')}, consumed = 2\<rparr>.
         case (if k = 0 then Some (5::int, ''bad'') else if k = 1 then Some (1, ''good'') else None)
         of None \<Rightarrow> False
          | Some (score, tikzpic) \<Rightarrow> (if False then \<not> tikzpic \<noteq> ''good'' else tikzpic = ''good''))"
proof -
  let ?sim = "\<lambda>k::nat. if k = 0 then Some (5::int, ''bad'') else if k = 1 then Some (1, ''good'') else None"
  let ?st = "\<lparr>success = True, tikzpics = {(1::int, ''good''), (5, ''bad'')}, consumed = 2\<rparr>"
  have run: "generate_loop (\<lambda>c. c = ''good'') (\<lambda>c. c \<noteq> ''good'') False None ?sim
     0 (\<lambda>k. 0) generate_init = Some ?st"
    by (simp add: loop_unfold generate_step_def generate_init_def budget_spent_def Let_def)
  have s1: "success (fst (generate_step (\<lambda>c. c = ''good'') (\<lambda>c. c \<noteq> ''good'') False None 0 0
                  generate_init (1::int, ''good'')))"
    using generate_success_criterion [where is_rasterizable = "\<lambda>c. c = ''good''"
        and compiled_with_errors = "\<lambda>c. c \<noteq> ''good''" and strict = False and timeout = None
        and start = 0 and t = 0 and st = generate_init and score = "1::int" and tikzpic = "''good''",
        THEN conjunct1]
    by simp
  have s2: "\<not> success (fst (generate_step (\<lambda>c. c = ''good'') (\<lambda>c. c \<noteq> ''good'') True None 0 0
                  generate_init (5::int, ''bad'')))"
    using generate_success_criterion [where is_rasterizable = "\<lambda>c. c = ''good''"
        and compiled_with_errors = "\<lambda>c. c \<noteq> ''good''" and strict = True and timeout = None
        and start = 0 and t = 0 and st = generate_init and score = "5::int" and tikzpic = "''bad''",
        THEN conjunct1]
    by (simp add: generate_init_def)
  have s3: "success ?st =
     (\<exists>k<consumed ?st. case ?sim k of None \<Rightarrow> False
          | Some (score, tikzpic) \<Rightarrow> (if False then \<not> tikzpic \<noteq> ''good'' else tikzpic = ''good''))"
    by (rule generate_success_criterion [where is_rasterizable = "\<lambda>c. c = ''good''"
        and compiled_with_errors = "\<lambda>c. c \<noteq> ''good''" and strict = False and timeout = None
        and start = 0 and now = "\<lambda>k. 0" and simulate = ?sim and st' = ?st,
        THEN conjunct2, THEN mp, OF run])
  from s1 s2 s3 run show ?thesis by blast
qed

text \<open>
  Claim C6. The value returned by \<open>generate\<close> is made of all the \<open>(score, artifact)\<close>
  pairs observed during the loop, each pair once (a set, by equality of the pair),
  sorted ascending by score, with the scores dropped and the artifacts kept in that
  order. The iteration order of the Python set is any enumeration of it without
  repetition.
\<close>

theorem generate_result:
  assumes run: "generate_loop is_rasterizable compiled_with_errors strict timeout simulate start now
                  generate_init = Some st"
    and order: "set (set_order (tikzpics st)) = tikzpics st" "distinct (set_order (tikzpics st))"
  shows "\<exists>ps. generate set_order is_rasterizable compiled_with_errors strict timeout simulate
                 start now = Some (map snd ps) \<and>
              sorted (map fst ps) \<and> distinct ps \<and>
              set ps = {x. \<exists>k<consumed st. simulate k = Some x}"
proof (intro exI conjI)
  let ?ps = "sort_key fst (set_order (tikzpics st))"
  show "generate set_order is_rasterizable compiled_with_errors strict timeout simulate
                 start now = Some (map snd ?ps)"
    using run by (simp add: generate_def)
  show "sorted (map fst ?ps)" by simp
  show "distinct ?ps" using order(2) by simp
  show "set ?ps = {x. \<exists>k<consumed st. simulate k = Some x}"
    using order(1) run_tikzpics [OF run] by simp
qed

theorem generate_result_witness:
  "generate_loop (\<lambda>c. c = ''good'') (\<lambda>c. c \<noteq> ''good'') False None
     (\<lambda>k. if k = 0 then Some (5::int, ''bad'') else if k = 1 then Some (1, ''good'') else None)
     0 (\<lambda>k. 0) generate_init =
   Some \<lparr>success = True, tikzpics = {(1, ''good''), (5, ''bad'')}, consumed = 2\<rparr> \<and>
   set [(5::int, ''bad''), (1, ''good'')] = {(1, ''good''), (5, ''bad'')} \<and>
   distinct [(5::int, ''bad''), (1, ''good'')] \<and>
   (\<exists>ps. generate (\<lambda>S. [(5, ''bad''), (1, ''good'')]) (\<lambda>c. c = ''good'') (\<lambda>c. c \<noteq> ''good'')
            False None
            (\<lambda>k. if k = 0 then Some (5::int, ''bad'') else if k = 1 then Some (1, ''good'') else None)
            0 (\<lambda>k. 0) = Some (map snd ps) \<and>
         sorted (map fst ps) \<and> distinct ps \<and>
         set ps = {x. \<exists>k::nat<2. (if k = 0 then Some (5::int, ''bad'')
                             else if k = 1 then Some (1, ''good'') else None) = Some x})"
proof -
  let ?sim = "\<lambda>k::nat. if k = 0 then Some (5::int, ''bad'') else if k = 1 then Some (1, ''good'') else None"
  let ?st = "\<lparr>success = True, tikzpics = {(1::int, ''good''), (5, ''bad'')}, consumed = 2\<rparr>"
  let ?ord = "\<lambda>S :: (int \<times> string) set. [(5::int, ''bad''), (1, ''good'')]"
  have run: "generate_loop (\<lambda>c. c = ''good'') (\<lambda>c. c \<noteq> ''good'') False None ?sim
     0 (\<lambda>k. 0) generate_init = Some ?st"
    by (simp add: loop_unfold generate_step_def generate_init_def budget_spent_def Let_def)
  have o1: "set (?ord (tikzpics ?st)) = tikzpics ?st" by auto
  have o2: "distinct (?ord (tikzpics ?st))" by simp
  from generate_result [OF run o1 o2] run o1 o2 show ?thesis by simp
qed

lemma sorted_last_max:
  "sorted (map f ps) \<Longrightarrow> x \<in> set ps \<Longrightarrow> f x \<le> f (last ps)"
  by (induction ps) (auto split: if_splits)

lemma generate_last_top_scored:
  assumes run: "generate_loop is_rasterizable compiled_with_errors strict timeout simulate start now
                  generate_init = Some st"
    and succ: "success st"
    and order: "set (set_order (tikzpics st)) = tikzpics st"
  shows "\<exists>batch s. generate set_order is_rasterizable compiled_with_errors strict timeout simulate
                 start now = Some batch \<and> batch \<noteq> [] \<and>
           (s, last batch) \<in> tikzpics st \<and> (\<forall>x \<in> tikzpics st. fst x \<le> s)"
proof -
  let ?ps = "sort_key fst (set_order (tikzpics st))"
  have gen: "generate set_order is_rasterizable compiled_with_errors strict timeout simulate
                 start now = Some (map snd ?ps)"
    using run by (simp add: generate_def)
  have setps: "set ?ps = tikzpics st" using order by simp
  from succ run_success [OF run] obtain k where
    k: "k < consumed st" "ok_at (spec_criterion is_rasterizable compiled_with_errors strict) simulate k"
    by blast
  then obtain x where "simulate k = Some x"
    by (auto simp: ok_at_def split: option.splits)
  with k run_tikzpics [OF run] have "x \<in> tikzpics st" by auto
  then have mem: "x \<in> set ?ps" using setps by blast
  have ne: "?ps \<noteq> []" using mem by (metis list.set(1) empty_iff)
  have l: "last (map snd ?ps) = snd (last ?ps)" using ne by (simp add: last_map)
  have lin: "last ?ps \<in> tikzpics st" using ne setps last_in_set by blast
  have top: "\<forall>x \<in> tikzpics st. fst x \<le> fst (last ?ps)"
    using sorted_last_max [of fst ?ps] setps by simp
  show ?thesis
    using gen ne l lin top
    by (intro exI [of _ "map snd ?ps"] exI [of _ "fst (last ?ps)"]) simp
qed


section \<open>Properties of \<open>predict\<close>\<close>

lemma extend_round_exhausted:
  "length c \<le> idx \<Longrightarrow> extend_round idx (c # cs) acc = (acc, True)"
  by simp

lemma interleave_loop_total:
  "\<exists>r. interleave_loop (c # cs) idx acc = Some r"
proof (induction "length c - idx" arbitrary: idx acc)
  case 0
  then have "extend_round idx (c # cs) acc = (acc, True)" by simp
  then show ?case by (subst interleave_loop.simps) simp
next
  case (Suc d)
  obtain acc' raised where r: "extend_round idx (c # cs) acc = (acc', raised)"
    by (cases "extend_round idx (c # cs) acc")
  show ?case
  proof (cases raised)
    case True
    with r show ?thesis by (subst interleave_loop.simps) simp
  next
    case False
    have "\<exists>r. interleave_loop (c # cs) (Suc idx) acc' = Some r"
      using Suc(1) [of "Suc idx" acc'] Suc(2) by simp
    with r False show ?thesis by (subst interleave_loop.simps) simp
  qed
qed

lemma interleave_total: "chunks \<noteq> [] \<Longrightarrow> \<exists>r. interleave chunks = Some r"
  using interleave_loop_total by (cases chunks) (auto simp: interleave_def)

lemma all_gather_nonempty: "0 < WORLD_SIZE \<Longrightarrow> all_gather WORLD_SIZE RANK peers mine \<noteq> []"
  by (simp add: all_gather_def)

lemma predict_loop_all:
  "\<forall>x \<in> set items. gen x = Some (Inr (g x)) \<Longrightarrow>
     predict_loop gen items acc = Some (acc @ map g items, None)"
  by (induction items arbitrary: acc) simp_all

lemma predict_loop_raise:
  "\<forall>x \<in> set pre. gen x = Some (Inr (g x)) \<Longrightarrow> gen item = Some (Inl e) \<Longrightarrow>
     predict_loop gen (pre @ item # post) acc = Some (acc @ map g pre, Some e)"
  by (induction pre arbitrary: acc) simp_all

lemma slice_step_map: "slice_step (map f l) i n = map f (slice_step l i n)"
proof (cases "n = 0")
  case True
  then show ?thesis by (simp add: slice_step_def)
next
  case False
  then have n: "0 < n" by simp
  have "\<And>k. k < slice_len (length l) i n \<Longrightarrow> i + k * n < length l"
    using slice_len_less [OF n] by simp
  then show ?thesis using False by (simp add: slice_step_def)
qed

lemma chunk_map: "chunk (map f l) n = map (map f) (chunk l n)"
  by (simp add: chunk_def slice_step_map)

lemma all_gather_consistent:
  assumes "RANK < WORLD_SIZE"
    and "\<forall>r < WORLD_SIZE. r \<noteq> RANK \<longrightarrow> peers r = map g (chunk l WORLD_SIZE ! r)"
  shows "all_gather WORLD_SIZE RANK peers (map g (chunk l WORLD_SIZE ! RANK)) =
         chunk (map g l) WORLD_SIZE"
  using assms by (auto simp: all_gather_def chunk_def slice_step_map)

lemma code_load_cache:
  "map (\<lambda>ps. map code ps) (map (\<lambda>sample. map (\<lambda>c. \<lparr>code = c, doc_timeout = None\<rparr>) sample) json) = json"
  by (simp add: comp_def)



lemma set_slice_step: "set (slice_step l i n) \<subseteq> set l"
proof (cases "n = 0")
  case True
  then show ?thesis by (simp add: slice_step_def)
next
  case False
  then have n: "0 < n" by simp
  have "\<And>k. k < slice_len (length l) i n \<Longrightarrow> i + k * n < length l"
    using slice_len_less [OF n] by simp
  then show ?thesis using False by (auto simp: slice_step_def)
qed

lemma set_chunk_nth: "r < n \<Longrightarrow> set (chunk l n ! r) \<subseteq> set l"
  by (simp add: chunk_def set_slice_step)


text \<open>
  Claim C3. If the generation phase of \<open>predict\<close> raises an exception for an item
  of the worker's chunk (after the items before it were generated), then the
  all-gather still receives the worker's list, the gathered lists are still
  interleaved and appended to the cached predictions, the cache file is still written
  (on rank \<open>0\<close>, when a cache path is configured), and \<open>predict\<close> ends by raising that
  exception.
\<close>

theorem predict_finally_runs:
  assumes load: "load_failure = None"
    and ws: "1 \<le> WORLD_SIZE" and rank: "RANK < WORLD_SIZE"
    and chunk: "chunk (drop (length (load_cache cache_file (files w))) testset) WORLD_SIZE ! RANK =
                pre @ item # post"
    and pre: "\<forall>x \<in> set pre. gen x = Some (Inr (g x))"
    and raise: "gen item = Some (Inl e)"
  shows "\<exists>interleaved.
           interleave (all_gather WORLD_SIZE RANK peers (map g pre)) = Some interleaved \<and>
           predict load_failure gen peers WORLD_SIZE RANK testset cache_file w =
             Some (w\<lparr>sent := sent w @ [map g pre],
                     files := (if truthy cache_file \<and> RANK = 0
                               then (files w)(the cache_file \<mapsto>
                                      map (\<lambda>ps. map code ps)
                                        (load_cache cache_file (files w) @ interleaved))
                               else files w)\<rparr>,
                   Inl e)"
proof -
  let ?cached = "load_cache cache_file (files w)"
  have tried: "predict_try gen WORLD_SIZE RANK (drop (length ?cached) testset) =
             Some (map g pre, Some e)"
    using rank chunk predict_loop_raise [OF pre raise, of post "[]"]
    by (simp add: predict_try_def chunk_def)
  obtain interleaved where il: "interleave (all_gather WORLD_SIZE RANK peers (map g pre)) = Some interleaved"
    using interleave_total [OF all_gather_nonempty, of WORLD_SIZE RANK peers "map g pre"] ws by auto
  show ?thesis
    using load tried il by (intro exI [of _ interleaved]) (auto simp: predict_def predict_finally_def Let_def)
qed

theorem predict_finally_runs_witness:
  "predict (None :: string py_error option)
     (\<lambda>item. if item = ''c'' then Some (Inl (External ''boom''))
             else Some (Inr [\<lparr>code = item, doc_timeout = Some 60\<rparr>]))
     (\<lambda>r. [[\<lparr>code = ''b'', doc_timeout = Some 60\<rparr>], [\<lparr>code = ''d'', doc_timeout = Some 60\<rparr>]])
     2 0 [''a'', ''b'', ''c'', ''d''] (Some ''m.json'') \<lparr>files = Map.empty, sent = []\<rparr> =
   Some (\<lparr>files = [''m.json'' \<mapsto> [[''a''], [''b'']]],
          sent = [[[\<lparr>code = ''a'', doc_timeout = Some 60\<rparr>]]]\<rparr>,
         Inl (External ''boom''))"
proof -
  let ?g = "\<lambda>item. [\<lparr>code = item, doc_timeout = Some 60\<rparr>]"
  let ?gen = "\<lambda>item. if item = ''c'' then Some (Inl (External ''boom''))
             else Some (Inr (?g item)) :: (string py_error + tikz_document list) option"
  let ?peers = "\<lambda>r::nat. [[\<lparr>code = ''b'', doc_timeout = Some 60\<rparr>], [\<lparr>code = ''d'', doc_timeout = Some 60\<rparr>]]"
  let ?w = "\<lparr>files = Map.empty, sent = []\<rparr>"
  let ?testset = "[''a'', ''b'', ''c'', ''d'']"
  have lc: "load_cache (Some ''m.json'') Map.empty = []"
    by (simp add: load_cache_def)
  have c: "chunk ?testset 2 = [[''a'', ''c''], [''b'', ''d'']]"
    by code_simp
  have ch: "chunk (drop (length (load_cache (Some ''m.json'') (files ?w))) ?testset) 2 ! 0 =
            [''a''] @ ''c'' # []"
    by (simp add: lc c)
  have ws: "(1::nat) \<le> 2" and rk: "(0::nat) < 2" by simp_all
  have pre: "\<forall>x \<in> set [''a'']. ?gen x = Some (Inr (?g x))" by simp
  have raised: "?gen ''c'' = Some (Inl (External ''boom''))" by simp
  have il: "interleave (all_gather 2 0 ?peers (map ?g [''a''])) =
        Some [[\<lparr>code = ''a'', doc_timeout = Some 60\<rparr>], [\<lparr>code = ''b'', doc_timeout = Some 60\<rparr>]]"
    by (simp add: all_gather_def numeral_2_eq_2 interleave_def interleave_loop.simps)
  from predict_finally_runs [where load_failure = None and WORLD_SIZE = 2 and RANK = 0
      and cache_file = "Some ''m.json''" and w = ?w and testset = ?testset and pre = "[''a'']"
      and item = "''c''" and post = "[]" and gen = ?gen and g = ?g and e = "External ''boom''"
      and peers = ?peers, OF refl ws rk ch pre raised]
  obtain interleaved where
    a: "interleave (all_gather 2 0 ?peers (map ?g [''a''])) = Some interleaved" and
    b: "predict None ?gen ?peers 2 0 ?testset (Some ''m.json'') ?w =
          Some (?w\<lparr>sent := sent ?w @ [map ?g [''a'']],
                   files := (if truthy (Some ''m.json'') \<and> (0::nat) = 0
                             then (files ?w)(the (Some ''m.json'') \<mapsto>
                                    map (\<lambda>ps. map code ps)
                                      (load_cache (Some ''m.json'') (files ?w) @ interleaved))
                             else files ?w)\<rparr>,
                Inl (External ''boom''))"
    by blast
  from a il have "interleaved =
      [[\<lparr>code = ''a'', doc_timeout = Some 60\<rparr>], [\<lparr>code = ''b'', doc_timeout = Some 60\<rparr>]]"
    by simp
  with b show ?thesis by (simp add: lc truthy_def)
qed

text \<open>
  Claim C7. When \<open>predict\<close> resumes from an existing cache file of \<open>k\<close> entries, the
  first \<open>k\<close> dataset items are skipped (nothing is asked of the generation for them,
  and every later item is generated), the new results come after the \<open>k\<close> cached
  entries, in dataset order, and the cached entries keep their positions and their
  order, in the returned list and in the rewritten file. The workers of the other
  ranks run the same code on the same cache file and dataset.
\<close>

theorem predict_resume:
  assumes cache: "cache_file = Some path" "path \<noteq> []" "files w path = Some cached"
    and load: "load_failure = None"
    and ws: "1 \<le> WORLD_SIZE" and rank: "RANK < WORLD_SIZE"
    and gen: "\<forall>x \<in> set (drop (length cached) testset). gen x = Some (Inr (g x))"
    and peers: "\<forall>r < WORLD_SIZE. r \<noteq> RANK \<longrightarrow>
                  peers r = map g (chunk (drop (length cached) testset) WORLD_SIZE ! r)"
  shows "predict load_failure gen peers WORLD_SIZE RANK testset cache_file w =
     Some (w\<lparr>sent := sent w @ [map g (chunk (drop (length cached) testset) WORLD_SIZE ! RANK)],
             files := (if RANK = 0
                       then (files w)(path \<mapsto>
                              cached @ map (\<lambda>ps. map code ps)
                                         (map g (drop (length cached) testset)))
                       else files w)\<rparr>,
           Inr (map (\<lambda>sample. map (\<lambda>c. \<lparr>code = c, doc_timeout = None\<rparr>) sample) cached @
                map g (drop (length cached) testset)))"
proof -
  let ?docs = "map (\<lambda>sample. map (\<lambda>c. \<lparr>code = c, doc_timeout = None\<rparr>) sample) cached"
  let ?rem = "drop (length cached) testset"
  have lc: "load_cache cache_file (files w) = ?docs"
    using cache by (simp add: load_cache_def)
  have "\<forall>x \<in> set (chunk ?rem WORLD_SIZE ! RANK). gen x = Some (Inr (g x))"
    using gen set_chunk_nth [OF rank, of ?rem] by blast
  from predict_loop_all [OF this, of "[]"]
  have tried: "predict_try gen WORLD_SIZE RANK ?rem =
        Some (map g (chunk ?rem WORLD_SIZE ! RANK), None)"
    using rank by (simp add: predict_try_def chunk_def)
  have "all_gather WORLD_SIZE RANK peers (map g (chunk ?rem WORLD_SIZE ! RANK)) =
        chunk (map g ?rem) WORLD_SIZE"
    by (rule all_gather_consistent [OF rank peers])
  moreover have "interleave (chunk (map g ?rem) WORLD_SIZE) = Some (map g ?rem)"
    using interleave_chunk [of WORLD_SIZE "map g ?rem"] ws by simp
  ultimately have il: "interleave (all_gather WORLD_SIZE RANK peers
        (map g (chunk ?rem WORLD_SIZE ! RANK))) = Some (map g ?rem)" by simp
  have tr: "truthy cache_file" using cache by (simp add: truthy_def)
  have cd: "map (\<lambda>ps. map code ps) ?docs = cached" by (rule code_load_cache)
  have fin: "predict_finally WORLD_SIZE RANK peers cache_file ?docs
               (map g (chunk ?rem WORLD_SIZE ! RANK)) w =
     Some (w\<lparr>sent := sent w @ [map g (chunk ?rem WORLD_SIZE ! RANK)],
             files := (if RANK = 0
                       then (files w)(path \<mapsto> cached @ map (\<lambda>ps. map code ps) (map g ?rem))
                       else files w)\<rparr>,
           ?docs @ map g ?rem)"
    using il tr cd cache(1) by (simp add: predict_finally_def Let_def)
  have "length ?docs = length cached" by simp
  then show ?thesis
    using load tried fin by (simp add: predict_def Let_def lc)
qed

theorem predict_resume_witness:
  "predict (None :: unit py_error option)
     (\<lambda>item. if item = ''a'' then None else Some (Inr [\<lparr>code = item, doc_timeout = Some 60\<rparr>]))
     (\<lambda>r. [[\<lparr>code = ''c'', doc_timeout = Some 60\<rparr>], [\<lparr>code = ''e'', doc_timeout = Some 60\<rparr>]])
     2 0 [''a'', ''b'', ''c'', ''d'', ''e''] (Some ''m.json'')
     \<lparr>files = [''m.json'' \<mapsto> [[''x'', ''y'']]], sent = []\<rparr> =
   Some (\<lparr>files = [''m.json'' \<mapsto> [[''x'', ''y''], [''b''], [''c''], [''d''], [''e'']]],
          sent = [[[\<lparr>code = ''b'', doc_timeout = Some 60\<rparr>], [\<lparr>code = ''d'', doc_timeout = Some 60\<rparr>]]]\<rparr>,
         Inr [[\<lparr>code = ''x'', doc_timeout = None\<rparr>, \<lparr>code = ''y'', doc_timeout = None\<rparr>],
              [\<lparr>code = ''b'', doc_timeout = Some 60\<rparr>], [\<lparr>code = ''c'', doc_timeout = Some 60\<rparr>],
              [\<lparr>code = ''d'', doc_timeout = Some 60\<rparr>], [\<lparr>code = ''e'', doc_timeout = Some 60\<rparr>]])"
proof -
  let ?g = "\<lambda>item. [\<lparr>code = item, doc_timeout = Some 60\<rparr>]"
  let ?gen = "\<lambda>item. if item = ''a'' then None else Some (Inr (?g item)) :: (unit py_error + tikz_document list) option"
  let ?peers = "\<lambda>r::nat. [[\<lparr>code = ''c'', doc_timeout = Some 60\<rparr>], [\<lparr>code = ''e'', doc_timeout = Some 60\<rparr>]]"
  let ?w = "\<lparr>files = [''m.json'' \<mapsto> [[''x'', ''y'']]], sent = []\<rparr>"
  let ?testset = "[''a'', ''b'', ''c'', ''d'', ''e'']"
  have c: "chunk [''b'', ''c'', ''d'', ''e''] 2 = [[''b'', ''d''], [''c'', ''e'']]"
    by code_simp
  have f: "files ?w ''m.json'' = Some [[''x'', ''y'']]" by simp
  have g: "\<forall>x \<in> set (drop (length [[''x'', ''y'']]) ?testset). ?gen x = Some (Inr (?g x))"
    by simp
  have p: "\<forall>r < 2. r \<noteq> 0 \<longrightarrow>
       ?peers r = map ?g (chunk (drop (length [[''x'', ''y'']]) ?testset) 2 ! r)"
    by (simp add: c less_2_cases_iff)
  from predict_resume [where cache_file = "Some ''m.json''" and path = "''m.json''" and w = ?w
      and cached = "[[''x'', ''y'']]" and load_failure = None and WORLD_SIZE = 2 and RANK = 0
      and testset = ?testset and gen = ?gen and g = ?g and peers = ?peers, OF refl _ f refl _ _ g p]
  show ?thesis by (simp add: c)
qed

section \<open>Properties of \<open>compute\<close>\<close>

lemma length_argsort: "length (argsort a) = length a"
  by (simp add: argsort_def)

lemma winsorize_small:
  assumes "0 < length a" "length a < 20"
  shows "winsorize a (5 / 100) = Inr a"
proof -
  have "0 \<le> real (length a) / 20" by simp
  moreover have "real (length a) / 20 < 1" using assms(2) by simp
  ultimately have f: "\<lfloor>real (length a) / 20\<rfloor> = 0" by linarith
  show ?thesis
    using assms(1) by (simp add: winsorize_def Let_def f length_argsort)
qed

lemma token_samples_Inr:
  "token_samples predictions = (Inr samples :: 'e py_error + real list) \<Longrightarrow>
     samples = map (\<lambda>preds. real (length (code (last preds))) /
                 real (sum_list (map (\<lambda>pred. length (code pred)) preds))) predictions"
proof (induction predictions arbitrary: samples)
  case Nil
  then show ?case by simp
next
  case (Cons preds predictions)
  then show ?case
    by (auto simp: token_ratio_def Let_def split: sum.splits if_splits)
qed

lemma token_ratio_not_assertion: "token_ratio preds \<noteq> Inl AssertionError"
  by (simp add: token_ratio_def Let_def)

lemma token_samples_not_assertion: "token_samples predictions \<noteq> Inl AssertionError"
  by (induction predictions) (auto simp: token_ratio_not_assertion split: sum.splits)

lemma winsorize_not_assertion: "winsorize a limit \<noteq> Inl AssertionError"
  by (simp add: winsorize_def Let_def)

lemma compute_scores_not_assertion:
  "compute_scores metrics measure_throughput references predictions \<noteq> Inl AssertionError"
  using token_samples_not_assertion [of predictions]
    winsorize_not_assertion
  by (auto simp: compute_scores_def mean_token_efficiency_def mean_sampling_throughput_def
           split: sum.splits)

text \<open>
  Claim C8 as stated fails: with the predictions \<open>[[bad], []]\<close> the final artifact of
  the first prediction is not rasterizable, yet \<open>compute\<close> fails with \<open>IndexError\<close>,
  raised by \<open>pred[-1]\<close> on the empty prediction in line 175, before the assertion of
  line 177 is reached. \<open>generate\<close> returns an empty batch when the engine yields
  nothing.
\<close>

theorem compute_assertion_counterexample:
  "\<not> (code \<lparr>code = ''bad'', doc_timeout = None\<rparr> = ''good'') \<and>
   compute (\<lambda>d. code d = ''good'') (\<lambda>references predictions. []) False [(), ()]
     [[\<lparr>code = ''bad'', doc_timeout = None\<rparr>], []] =
     (Inl IndexError :: unit py_error + (string \<times> real) list) \<and>
   compute (\<lambda>d. code d = ''good'') (\<lambda>references predictions. []) False [(), ()]
     [[\<lparr>code = ''bad'', doc_timeout = None\<rparr>], []] \<noteq>
     (Inl AssertionError :: unit py_error + (string \<times> real) list)"
  by (simp add: compute_def)

text \<open>
  Claim C8, as amended. When every prediction is non-empty, \<open>compute\<close> fails with
  the assertion failure exactly when some prediction's final artifact is not
  rasterizable, and when every final artifact is rasterizable the assertion does not
  fire and \<open>compute\<close> goes on to the scores (lines 179--197).
\<close>

theorem compute_assertion:
  assumes "\<forall>pred \<in> set predictions. pred \<noteq> []"
  shows "(compute is_rasterizable metrics measure_throughput references predictions =
            Inl AssertionError) =
         (\<exists>pred \<in> set predictions. \<not> is_rasterizable (last pred)) \<and>
         ((\<forall>pred \<in> set predictions. is_rasterizable (last pred)) \<longrightarrow>
          compute is_rasterizable metrics measure_throughput references predictions =
            compute_scores metrics measure_throughput references predictions)"
  using assms compute_scores_not_assertion [of metrics measure_throughput references predictions]
  by (auto simp: compute_def)

theorem compute_assertion_witness:
  "compute (\<lambda>d. code d = ''good'') (\<lambda>references predictions. []) False [()]
     [[\<lparr>code = ''good'', doc_timeout = None\<rparr>, \<lparr>code = ''bad'', doc_timeout = None\<rparr>]] =
     (Inl AssertionError :: unit py_error + (string \<times> real) list) \<and>
   compute (\<lambda>d. code d = ''good'') (\<lambda>references predictions. []) False [()]
     [[\<lparr>code = ''bad'', doc_timeout = None\<rparr>, \<lparr>code = ''good'', doc_timeout = None\<rparr>]] =
     (Inr [(''MeanTokenEfficiency'', 4 / 7)] :: unit py_error + (string \<times> real) list)"
proof -
  let ?isr = "\<lambda>d. code d = ''good''"
  let ?m = "\<lambda>(references :: unit list) (predictions :: tikz_document list list). [] :: (string \<times> real) list"
  let ?bad = "[[\<lparr>code = ''good'', doc_timeout = None\<rparr>, \<lparr>code = ''bad'', doc_timeout = None\<rparr>]]"
  let ?good = "[[\<lparr>code = ''bad'', doc_timeout = None\<rparr>, \<lparr>code = ''good'', doc_timeout = None\<rparr>]]"
  have ne1: "\<forall>pred \<in> set ?bad. pred \<noteq> []" and ne2: "\<forall>pred \<in> set ?good. pred \<noteq> []"
    by simp_all
  have ts: "token_samples ?good = (Inr [4 / 7] :: unit py_error + real list)"
    by (simp add: token_ratio_def)
  have w: "winsorize [4 / 7] (5 / 100) = (Inr [4 / 7] :: unit py_error + real list)"
    by (rule winsorize_small) simp_all
  have mte: "mean_token_efficiency ?good = (Inr (4 / 7) :: unit py_error + real)"
    by (simp only: mean_token_efficiency_def ts w sum.case) (simp add: mean_def)
  have sc: "compute_scores ?m False [()] ?good =
      (Inr [(''MeanTokenEfficiency'', 4 / 7)] :: unit py_error + (string \<times> real) list)"
    by (simp only: compute_scores_def mte if_False sum.case) simp
  from compute_assertion [OF ne1, where is_rasterizable = ?isr and metrics = ?m
        and measure_throughput = False and references = "[()]", THEN conjunct1]
  have a: "compute ?isr ?m False [()] ?bad =
            (Inl AssertionError :: unit py_error + (string \<times> real) list)"
    by simp
  from compute_assertion [OF ne2, where is_rasterizable = ?isr and metrics = ?m
        and measure_throughput = False and references = "[()]", THEN conjunct2]
  have b: "compute ?isr ?m False [()] ?good =
            (compute_scores ?m False [()] ?good :: unit py_error + (string \<times> real) list)"
    by simp
  from a b sc show ?thesis by simp
qed

lemma batch3_samples:
  "token_samples
     [[\<lparr>code = ''aaaaaaaaa'', doc_timeout = None\<rparr>, \<lparr>code = ''b'', doc_timeout = None\<rparr>],
      [\<lparr>code = ''aaaa'', doc_timeout = None\<rparr>, \<lparr>code = ''b'', doc_timeout = None\<rparr>],
      [\<lparr>code = ''a'', doc_timeout = None\<rparr>, \<lparr>code = ''bbbbbbbbb'', doc_timeout = None\<rparr>]] =
   Inr [1 / 10, 1 / 5, 9 / 10]"
  by (simp add: token_ratio_def)

lemma batch3_winsorize: "winsorize [1 / 10, 1 / 5, 9 / 10] (5 / 100) = Inr [1 / 10, 1 / 5, 9 / 10]"
  by (rule winsorize_small) simp_all

lemma batch3_efficiency:
  "mean_token_efficiency
     [[\<lparr>code = ''aaaaaaaaa'', doc_timeout = None\<rparr>, \<lparr>code = ''b'', doc_timeout = None\<rparr>],
      [\<lparr>code = ''aaaa'', doc_timeout = None\<rparr>, \<lparr>code = ''b'', doc_timeout = None\<rparr>],
      [\<lparr>code = ''a'', doc_timeout = None\<rparr>, \<lparr>code = ''bbbbbbbbb'', doc_timeout = None\<rparr>]] =
   Inr (2 / 5)"
  by (simp only: mean_token_efficiency_def batch3_samples batch3_winsorize sum.case)
     (simp add: mean_def)

lemma batch3_compute:
  "compute (\<lambda>d. True) (\<lambda>references predictions. []) False [(), (), ()]
     [[\<lparr>code = ''aaaaaaaaa'', doc_timeout = None\<rparr>, \<lparr>code = ''b'', doc_timeout = None\<rparr>],
      [\<lparr>code = ''aaaa'', doc_timeout = None\<rparr>, \<lparr>code = ''b'', doc_timeout = None\<rparr>],
      [\<lparr>code = ''a'', doc_timeout = None\<rparr>, \<lparr>code = ''bbbbbbbbb'', doc_timeout = None\<rparr>]] =
     Inr [(''MeanTokenEfficiency'', 2 / 5)]"
proof -
  have "compute_scores (\<lambda>references predictions. []) False [(), (), ()]
     [[\<lparr>code = ''aaaaaaaaa'', doc_timeout = None\<rparr>, \<lparr>code = ''b'', doc_timeout = None\<rparr>],
      [\<lparr>code = ''aaaa'', doc_timeout = None\<rparr>, \<lparr>code = ''b'', doc_timeout = None\<rparr>],
      [\<lparr>code = ''a'', doc_timeout = None\<rparr>, \<lparr>code = ''bbbbbbbbb'', doc_timeout = None\<rparr>]] =
     Inr [(''MeanTokenEfficiency'', 2 / 5)]"
    by (simp only: compute_scores_def batch3_efficiency if_False sum.case) simp
  then show ?thesis by (simp add: compute_def)
qed

text \<open>
  Claim C9 as stated fails in its example: on the batch of three items with the
  ratios \<open>[0.1, 0.2, 0.9]\<close>, \<open>int(0.05 * 3) = 0\<close> values are replaced on either side,
  the winsorized samples are the samples themselves, and the statistic is the plain
  mean \<open>0.4\<close>, not the mean \<open>(0.1 + 0.2 + 0.2) / 3\<close> of samples with \<open>0.9\<close> pulled to
  \<open>0.2\<close>.
\<close>

theorem compute_token_efficiency_counterexample:
  "token_samples
     [[\<lparr>code = ''aaaaaaaaa'', doc_timeout = None\<rparr>, \<lparr>code = ''b'', doc_timeout = None\<rparr>],
      [\<lparr>code = ''aaaa'', doc_timeout = None\<rparr>, \<lparr>code = ''b'', doc_timeout = None\<rparr>],
      [\<lparr>code = ''a'', doc_timeout = None\<rparr>, \<lparr>code = ''bbbbbbbbb'', doc_timeout = None\<rparr>]] =
     (Inr [1 / 10, 1 / 5, 9 / 10] :: unit py_error + real list) \<and>
   winsorize [1 / 10, 1 / 5, 9 / 10] (5 / 100) =
     (Inr [1 / 10, 1 / 5, 9 / 10] :: unit py_error + real list) \<and>
   compute (\<lambda>d. True) (\<lambda>references predictions. []) False [(), (), ()]
     [[\<lparr>code = ''aaaaaaaaa'', doc_timeout = None\<rparr>, \<lparr>code = ''b'', doc_timeout = None\<rparr>],
      [\<lparr>code = ''aaaa'', doc_timeout = None\<rparr>, \<lparr>code = ''b'', doc_timeout = None\<rparr>],
      [\<lparr>code = ''a'', doc_timeout = None\<rparr>, \<lparr>code = ''bbbbbbbbb'', doc_timeout = None\<rparr>]] =
     (Inr [(''MeanTokenEfficiency'', 2 / 5)] :: unit py_error + (string \<times> real) list) \<and>
   (2 / 5 :: real) \<noteq> (1 / 10 + 1 / 5 + 1 / 5) / 3"
proof (intro conjI)
  show "(2 / 5 :: real) \<noteq> (1 / 10 + 1 / 5 + 1 / 5) / 3" by simp
qed (rule batch3_samples batch3_winsorize batch3_compute)+

text \<open>
  Claim C9, as amended. When \<open>measure_throughput\<close> is false and \<open>compute\<close> returns, the
  structural statistic it reports under \<open>MeanTokenEfficiency\<close> is the mean of the
  winsorized per-item ratios (length of the final artifact's code) / (sum of the
  code lengths of all candidates of the item), with the limit \<open>0.05\<close> on both sides;
  on fewer than \<open>20\<close> items winsorizing changes no sample, so the statistic is then
  the plain mean of the ratios.
\<close>

theorem compute_token_efficiency:
  assumes "compute is_rasterizable metrics False references predictions =
             (Inr scores :: 'e py_error + (string \<times> real) list)"
  shows "\<exists>ws. winsorize
                (map (\<lambda>preds. real (length (code (last preds))) /
                        real (sum_list (map (\<lambda>pred. length (code pred)) preds))) predictions)
                (5 / 100) = (Inr ws :: 'e py_error + real list) \<and>
              scores = fold (\<lambda>(name, v) scores. AList.update name v scores)
                         (metrics references predictions) [(''MeanTokenEfficiency'', mean ws)] \<and>
              (length predictions < 20 \<longrightarrow>
                 ws = map (\<lambda>preds. real (length (code (last preds))) /
                        real (sum_list (map (\<lambda>pred. length (code pred)) preds))) predictions)"
proof -
  let ?ratios = "map (\<lambda>preds. real (length (code (last preds))) /
                        real (sum_list (map (\<lambda>pred. length (code pred)) preds))) predictions"
  from assms have cs: "compute_scores metrics False references predictions =
             (Inr scores :: 'e py_error + (string \<times> real) list)"
    by (simp add: compute_def split: if_splits)
  then obtain v where v: "mean_token_efficiency predictions = (Inr v :: 'e py_error + real)"
    and sc: "scores = fold (\<lambda>(name, v) scores. AList.update name v scores)
                         (metrics references predictions) [(''MeanTokenEfficiency'', v)]"
    by (auto simp: compute_scores_def split: sum.splits)
  from v obtain samples ws where s: "token_samples predictions = (Inr samples :: 'e py_error + real list)"
    and w: "winsorize samples (5 / 100) = (Inr ws :: 'e py_error + real list)" and m: "v = mean ws"
    by (auto simp: mean_token_efficiency_def split: sum.splits)
  have sr: "samples = ?ratios" by (rule token_samples_Inr [OF s])
  have small: "ws = ?ratios" if "length predictions < 20"
  proof -
    have "0 < length samples" using w by (auto simp: winsorize_def Let_def split: if_splits)
    with that sr have "winsorize samples (5 / 100) = (Inr samples :: 'e py_error + real list)"
      by (intro winsorize_small) simp_all
    with w sr show ?thesis by simp
  qed
  show ?thesis using w sr sc m small by (intro exI [of _ ws]) simp
qed

theorem compute_token_efficiency_witness:
  "compute (\<lambda>d. True) (\<lambda>references predictions. []) False [(), (), ()]
     [[\<lparr>code = ''aaaaaaaaa'', doc_timeout = None\<rparr>, \<lparr>code = ''b'', doc_timeout = None\<rparr>],
      [\<lparr>code = ''aaaa'', doc_timeout = None\<rparr>, \<lparr>code = ''b'', doc_timeout = None\<rparr>],
      [\<lparr>code = ''a'', doc_timeout = None\<rparr>, \<lparr>code = ''bbbbbbbbb'', doc_timeout = None\<rparr>]] =
     (Inr [(''MeanTokenEfficiency'', 2 / 5)] :: unit py_error + (string \<times> real) list) \<and>
   (\<exists>ws. winsorize [1 / 10, 1 / 5, 9 / 10] (5 / 100) = (Inr ws :: unit py_error + real list) \<and>
         [(''MeanTokenEfficiency'', 2 / 5)] = [(''MeanTokenEfficiency'', mean ws)] \<and>
         ws = [1 / 10, 1 / 5, 9 / 10])"
proof -
  let ?preds = "[[\<lparr>code = ''aaaaaaaaa'', doc_timeout = None\<rparr>, \<lparr>code = ''b'', doc_timeout = None\<rparr>],
      [\<lparr>code = ''aaaa'', doc_timeout = None\<rparr>, \<lparr>code = ''b'', doc_timeout = None\<rparr>],
      [\<lparr>code = ''a'', doc_timeout = None\<rparr>, \<lparr>code = ''bbbbbbbbb'', doc_timeout = None\<rparr>]]"
  have c: "compute (\<lambda>d. True) (\<lambda>references predictions. []) False [(), (), ()] ?preds =
     (Inr [(''MeanTokenEfficiency'', 2 / 5)] :: unit py_error + (string \<times> real) list)"
    by (rule batch3_compute)
  from compute_token_efficiency [OF c]
  obtain ws where ws: "winsorize
                (map (\<lambda>preds. real (length (code (last preds))) /
                        real (sum_list (map (\<lambda>pred. length (code pred)) preds))) ?preds)
                (5 / 100) = (Inr ws :: unit py_error + real list)"
     "[(''MeanTokenEfficiency'', 2 / 5)] =
        fold (\<lambda>(name, v) scores. AList.update name v scores) [] [(''MeanTokenEfficiency'', mean ws)]"
     "length ?preds < 20 \<longrightarrow>
        ws = map (\<lambda>preds. real (length (code (last preds))) /
                        real (sum_list (map (\<lambda>pred. length (code pred)) preds))) ?preds"
    by blast
  have r: "map (\<lambda>preds. real (length (code (last preds))) /
              real (sum_list (map (\<lambda>pred. length (code pred)) preds))) ?preds =
           [1 / 10, 1 / 5, 9 / 10]"
    by simp
  from ws(3) have w3: "ws = [1 / 10, 1 / 5, 9 / 10]" by (simp only: r) simp
  from ws(1) have w1: "winsorize [1 / 10, 1 / 5, 9 / 10] (5 / 100) = (Inr ws :: unit py_error + real list)"
    by (simp only: r)
  from ws(2) have w2: "[(''MeanTokenEfficiency'', 2 / 5)] = [(''MeanTokenEfficiency'', mean ws)]"
    by simp
  from c w1 w2 w3 show ?thesis by blast
qed

end
